theory Spec2Isabelle
  imports Main "HOL-Library.Sublist"
begin

section \<open>Bytes, strings and the library functions the logger calls\<close>

text \<open>
  A Go string is a sequence of bytes; it is modelled as a \<open>char list\<close> (an Isabelle
  \<open>char\<close> is one byte). The functions of this section are the ones of Go's
  \<^verbatim>\<open>strings\<close>, \<^verbatim>\<open>fmt\<close> and \<^verbatim>\<open>time\<close> packages that \<^verbatim>\<open>redlog.go\<close> calls, each
  restricted to the way it is called there.
\<close>

type_synonym byte = char

definition LF :: byte where "LF = CHR 0x0A"
definition ESC :: byte where "ESC = CHR 0x1B"

text \<open>\<^verbatim>\<open>strings.IndexByte(s, c)\<close>: the index of the first \<open>c\<close> in \<open>s\<close>, or \<open>-1\<close>.\<close>

fun IndexByte :: "string \<Rightarrow> byte \<Rightarrow> int" where
  "IndexByte [] c = - 1"
| "IndexByte (x # xs) c =
     (if x = c then 0
      else (let i = IndexByte xs c in if i = - 1 then - 1 else i + 1))"

text \<open>
  \<^verbatim>\<open>strings.TrimSpace\<close> removes leading and trailing white space as Unicode defines it
  (\<^verbatim>\<open>unicode.IsSpace\<close>). On the UTF-8 bytes of a string these are the six ASCII bytes
  tab, line feed, vertical tab, form feed, carriage return and space, and the
  encodings of U+0085, U+00A0, U+1680, U+2000 to U+200A, U+2028, U+2029, U+202F,
  U+205F and U+3000. A string starts (ends) with such a rune exactly when one of
  these byte sequences is a prefix (suffix) of it.
\<close>

definition space_runes :: "string list" where
  "space_runes =
     [[CHR 0x09], [CHR 0x0A], [CHR 0x0B], [CHR 0x0C], [CHR 0x0D], [CHR 0x20],
      [CHR 0xC2, CHR 0x85], [CHR 0xC2, CHR 0xA0],
      [CHR 0xE1, CHR 0x9A, CHR 0x80],
      [CHR 0xE2, CHR 0x80, CHR 0x80], [CHR 0xE2, CHR 0x80, CHR 0x81],
      [CHR 0xE2, CHR 0x80, CHR 0x82], [CHR 0xE2, CHR 0x80, CHR 0x83],
      [CHR 0xE2, CHR 0x80, CHR 0x84], [CHR 0xE2, CHR 0x80, CHR 0x85],
      [CHR 0xE2, CHR 0x80, CHR 0x86], [CHR 0xE2, CHR 0x80, CHR 0x87],
      [CHR 0xE2, CHR 0x80, CHR 0x88], [CHR 0xE2, CHR 0x80, CHR 0x89],
      [CHR 0xE2, CHR 0x80, CHR 0x8A],
      [CHR 0xE2, CHR 0x80, CHR 0xA8], [CHR 0xE2, CHR 0x80, CHR 0xA9],
      [CHR 0xE2, CHR 0x80, CHR 0xAF], [CHR 0xE2, CHR 0x81, CHR 0x9F],
      [CHR 0xE3, CHR 0x80, CHR 0x80]]"

text \<open>The width in bytes of the white-space rune \<open>s\<close> starts (ends) with; 0 if there is none.\<close>

definition leading_space :: "string \<Rightarrow> nat" where
  "leading_space s =
     (case find (\<lambda>w. prefix w s) space_runes of None \<Rightarrow> 0 | Some w \<Rightarrow> length w)"

definition trailing_space :: "string \<Rightarrow> nat" where
  "trailing_space s =
     (case find (\<lambda>w. suffix w s) space_runes of None \<Rightarrow> 0 | Some w \<Rightarrow> length w)"

lemma leading_space_le: "leading_space s \<le> length s"
  by (auto simp: leading_space_def prefix_def split: option.splits dest!: find_Some_iff[THEN iffD1])

lemma trailing_space_le: "trailing_space s \<le> length s"
  by (auto simp: trailing_space_def suffix_def split: option.splits dest!: find_Some_iff[THEN iffD1])

lemma leading_space_less: "0 < leading_space s \<Longrightarrow> length s - leading_space s < length s"
  using leading_space_le [of s] by arith

lemma trailing_space_less: "0 < trailing_space s \<Longrightarrow> length s - trailing_space s < length s"
  using trailing_space_le [of s] by arith

function TrimLeft :: "string \<Rightarrow> string" where
  "TrimLeft s = (if leading_space s = 0 then s else TrimLeft (drop (leading_space s) s))"
  by pat_completeness auto
termination
  by (relation "measure length") (auto intro: leading_space_less)

function TrimRight :: "string \<Rightarrow> string" where
  "TrimRight s =
     (if trailing_space s = 0 then s else TrimRight (take (length s - trailing_space s) s))"
  by pat_completeness auto
termination
  by (relation "measure length") (auto intro: trailing_space_less)

declare TrimLeft.simps [simp del] TrimRight.simps [simp del]

definition TrimSpace :: "string \<Rightarrow> string" where
  "TrimSpace s = TrimRight (TrimLeft s)"

text \<open>
  \<^verbatim>\<open>strings.SplitN(s, sep, n)\<close> for a one-byte separator and \<open>n \<ge> 0\<close>: at most \<open>n\<close>
  pieces, the last one the unsplit rest. \<^verbatim>\<open>strings.Split\<close> is \<^verbatim>\<open>SplitN\<close> with as many
  pieces as there are separators, plus one.
\<close>

fun SplitN :: "string \<Rightarrow> byte \<Rightarrow> nat \<Rightarrow> string list" where
  "SplitN s sep 0 = []"
| "SplitN s sep (Suc 0) = [s]"
| "SplitN s sep (Suc (Suc n)) =
     (let m = IndexByte s sep in
      if m < 0 then [s]
      else take (nat m) s # SplitN (drop (nat m + 1) s) sep (Suc n))"

definition Split :: "string \<Rightarrow> byte \<Rightarrow> string list" where
  "Split s sep = SplitN s sep (count_list s sep + 1)"

fun Join :: "string list \<Rightarrow> string \<Rightarrow> string" where
  "Join [] sep = []"
| "Join [p] sep = p"
| "Join (p # ps) sep = p @ sep @ Join ps sep"

text \<open>\<^verbatim>\<open>strings.Replace(s, old, new, 1)\<close> for a non-empty \<open>old\<close>: the first occurrence only.\<close>

fun Replace_first :: "string \<Rightarrow> string \<Rightarrow> string \<Rightarrow> string" where
  "Replace_first [] old new = []"
| "Replace_first (c # cs) old new =
     (if prefix old (c # cs) then new @ drop (length old) (c # cs)
      else c # Replace_first cs old new)"

subsection \<open>Formatting verbs\<close>

definition digit :: "nat \<Rightarrow> char" where
  "digit d = ''0123456789'' ! d"

fun decimal :: "nat \<Rightarrow> string" where
  "decimal n = (if n < 10 then [digit n] else decimal (n div 10) @ [digit (n mod 10)])"

declare decimal.simps [simp del]

text \<open>\<^verbatim>\<open>%d\<close> of an \<^verbatim>\<open>int\<close>.\<close>

definition fmt_d :: "int \<Rightarrow> string" where
  "fmt_d i = (if i < 0 then ''-'' @ decimal (nat (- i)) else decimal (nat i))"

text \<open>
  \<^verbatim>\<open>%c\<close> of a \<^verbatim>\<open>byte\<close>: the byte is taken as a code point and printed in UTF-8, one
  byte below 0x80 and two bytes from 0x80 on.
\<close>

definition fmt_c :: "byte \<Rightarrow> string" where
  "fmt_c b =
     (let n = (of_char b :: nat) in
      if n < 128 then [b] else [char_of (192 + n div 64), char_of (128 + n mod 64)])"

text \<open>Zero-padded decimal of at least \<open>w\<close> digits, as the time layout's \<^verbatim>\<open>02\<close>, \<^verbatim>\<open>15\<close>, \<^verbatim>\<open>04\<close>, \<^verbatim>\<open>05\<close> print.\<close>

definition appendInt :: "nat \<Rightarrow> nat \<Rightarrow> string" where
  "appendInt x w = replicate (w - length (decimal x)) (CHR ''0'') @ decimal x"

subsection \<open>Time\<close>

text \<open>
  A \<^verbatim>\<open>time.Time\<close> as the logger uses it: the instant \<open>ns\<close>, in nanoseconds since the zero
  Time (what \<^verbatim>\<open>IsZero\<close> tests and \<^verbatim>\<open>Sub\<close> subtracts), and the calendar fields of that
  instant in the local zone, which \<^verbatim>\<open>Format\<close> prints. The wall clock and the
  monotonic clock of a reading are not told apart. The clock is read once per
  emission; the reading is an argument of the model.
\<close>

datatype Month = January | February | March | April | May | June | July
  | August | September | October | November | December

record Time =
  ns :: int
  day :: nat
  month :: Month
  hour :: nat
  minute :: nat
  second :: nat
  nanosecond :: nat

definition zero_Time :: Time where
  "zero_Time = \<lparr>ns = 0, day = 1, month = January, hour = 0, minute = 0, second = 0,
     nanosecond = 0\<rparr>"

definition IsZero :: "Time \<Rightarrow> bool" where
  "IsZero t = (ns t = 0)"

type_synonym Duration = int

definition Millisecond :: Duration where "Millisecond = 1000000"
definition minDuration :: Duration where "minDuration = - (2 ^ 63)"
definition maxDuration :: Duration where "maxDuration = 2 ^ 63 - 1"

text \<open>\<^verbatim>\<open>t.Sub(u)\<close>: the elapsed nanoseconds, saturated to the range of an \<^verbatim>\<open>int64\<close>.\<close>

definition Time_Sub :: "Time \<Rightarrow> Time \<Rightarrow> Duration" where
  "Time_Sub t u =
     (let d = ns t - ns u in
      if d < minDuration then minDuration else if d > maxDuration then maxDuration else d)"

fun shortMonth :: "Month \<Rightarrow> string" where
  "shortMonth January = ''Jan''"
| "shortMonth February = ''Feb''"
| "shortMonth March = ''Mar''"
| "shortMonth April = ''Apr''"
| "shortMonth May = ''May''"
| "shortMonth June = ''Jun''"
| "shortMonth July = ''Jul''"
| "shortMonth August = ''Aug''"
| "shortMonth September = ''Sep''"
| "shortMonth October = ''Oct''"
| "shortMonth November = ''Nov''"
| "shortMonth December = ''Dec''"

text \<open>\<^verbatim>\<open>now.Format("02 Jan 15:04:05.000")\<close>; the fraction is truncated to milliseconds.\<close>

definition Format_stamp :: "Time \<Rightarrow> string" where
  "Format_stamp t =
     appendInt (day t) 2 @ '' '' @ shortMonth (month t) @ '' '' @
     appendInt (hour t) 2 @ '':'' @ appendInt (minute t) 2 @ '':'' @
     appendInt (second t) 2 @ ''.'' @ appendInt (nanosecond t div 1000000) 3"


section \<open>The logger of \<^verbatim>\<open>redlog.go\<close>\<close>

subsection \<open>Levels\<close>

type_synonym logLevel = int

definition logLevelDebug :: logLevel where "logLevelDebug = 0"
definition logLevelVerbose :: logLevel where "logLevelVerbose = 1"
definition logLevelNotice :: logLevel where "logLevelNotice = 2"
definition logLevelWarning :: logLevel where "logLevelWarning = 3"

text \<open>\<^verbatim>\<open>func (level logLevel) String() string\<close>\<close>

definition logLevel_String :: "logLevel \<Rightarrow> string" where
  "logLevel_String lv =
     (if lv = logLevelDebug then ''.''
      else if lv = logLevelVerbose then ''-''
      else if lv = logLevelNotice then ''*''
      else if lv = logLevelWarning then ''#''
      else ''?'')"

subsection \<open>The sink\<close>

text \<open>
  An \<^verbatim>\<open>io.Writer\<close> is known to the logger only through its \<^verbatim>\<open>Write\<close> method. The model
  keeps the byte strings it has been handed, in order, and a response function that
  gives the count and error a call returns, from the calls before it and the bytes
  of this one. A \<^verbatim>\<open>nil\<close> error is \<open>None\<close>.
\<close>

datatype error = Err string

record Writer =
  received :: "string list"
  respond :: "string list \<Rightarrow> string \<Rightarrow> int \<times> error option"

definition Writer_Write :: "Writer \<Rightarrow> string \<Rightarrow> (int \<times> error option) \<times> Writer" where
  "Writer_Write w p = (respond w (received w) p, w\<lparr>received := received w @ [p]\<rparr>)"

text \<open>A \<^verbatim>\<open>bytes.Buffer\<close>, which takes every byte and never fails.\<close>

definition Buffer :: Writer where
  "Buffer = \<lparr>received = [], respond = (\<lambda>h p. (int (length p), None))\<rparr>"

subsection \<open>The Logger struct and the hierarchy\<close>

text \<open>
  \<^verbatim>\<open>New\<close> makes the one Logger of a hierarchy whose \<^verbatim>\<open>parent\<close> is \<^verbatim>\<open>nil\<close>; the record
  \<open>Logger\<close> holds its fields (\<open>filter'\<close> and \<open>last'\<close> are the fields \<^verbatim>\<open>filter\<close> and
  \<^verbatim>\<open>last\<close>; a \<^verbatim>\<open>nil\<close> filter is \<open>None\<close>). \<^verbatim>\<open>Sub\<close> makes a Logger of which only
  \<^verbatim>\<open>parent\<close> and \<^verbatim>\<open>app\<close> are set, and every method hands over to \<^verbatim>\<open>l.parent\<close>
  before it reads another field; so a pointer to a Logger is a \<open>node\<close>: the root, or
  a child with its parent and its own tag. All nodes of a hierarchy share the one
  root record, which the methods take and return. The lock \<^verbatim>\<open>mu\<close> has no
  counterpart: the model runs one call at a time.
\<close>

type_synonym filter_fn = "string \<Rightarrow> bool \<Rightarrow> string \<times> byte \<times> logLevel"

record Logger =
  wr :: Writer
  level :: logLevel
  tty :: bool
  pid :: int
  app :: byte
  filter' :: "filter_fn option"
  idups :: bool
  last' :: string
  lastt :: Time

datatype node = Root | Child (parent: node) (tag: byte)

text \<open>
  \<^verbatim>\<open>New(wr)\<close>; \<open>getpid\<close> is what \<^verbatim>\<open>os.Getpid()\<close> returns and \<open>isatty\<close> what
  \<^verbatim>\<open>istty(wr)\<close> returns. The pointer \<^verbatim>\<open>New\<close> returns is \<open>Root\<close>.
\<close>

definition New :: "Writer \<Rightarrow> int \<Rightarrow> bool \<Rightarrow> Logger" where
  "New w getpid isatty =
     \<lparr>wr = w, level = logLevelNotice, tty = isatty, pid = getpid, app = CHR ''M'',
      filter' = None, idups = False, last' = [], lastt = zero_Time\<rparr>"

definition Sub :: "node \<Rightarrow> byte \<Rightarrow> node" where
  "Sub l a = Child l a"

text \<open>The field \<^verbatim>\<open>l.app\<close> of the Logger a node points to.\<close>

fun app_of :: "node \<Rightarrow> Logger \<Rightarrow> byte" where
  "app_of Root r = app r"
| "app_of (Child p a) r = a"

fun SetIgnoreDups :: "node \<Rightarrow> bool \<Rightarrow> Logger \<Rightarrow> Logger" where
  "SetIgnoreDups (Child p a) t r = SetIgnoreDups p t r"
| "SetIgnoreDups Root t r = r\<lparr>idups := t\<rparr>"

fun SetLevel :: "node \<Rightarrow> int \<Rightarrow> Logger \<Rightarrow> Logger" where
  "SetLevel (Child p a) lv r = SetLevel p lv r"
| "SetLevel Root lv r =
     (let lv = (if lv < logLevelDebug then logLevelDebug
                else if lv > logLevelWarning then logLevelWarning
                else lv)
      in r\<lparr>level := lv\<rparr>)"

fun doesAccept :: "node \<Rightarrow> logLevel \<Rightarrow> Logger \<Rightarrow> bool" where
  "doesAccept (Child p a) lv r = doesAccept p lv r"
| "doesAccept Root lv r = (lv \<ge> level r)"

fun SetFilter :: "node \<Rightarrow> filter_fn option \<Rightarrow> Logger \<Rightarrow> Logger" where
  "SetFilter (Child p a) f r = SetFilter p f r"
| "SetFilter Root f r = r\<lparr>filter' := f\<rparr>"

subsection \<open>Writing a line\<close>

text \<open>
  \<^verbatim>\<open>func (l *Logger) write(msg string)\<close>. On a terminal the line is split at its first
  five spaces and the fifth piece, when it is a glyph with a colour, is wrapped in the
  escape sequences; \<^verbatim>\<open>parts[4]\<close> panics when there are fewer than five pieces. What
  \<^verbatim>\<open>io.WriteString\<close> returns is dropped.
\<close>

datatype panic = IndexOutOfRange | InvalidLevel

definition glyph_color :: "string \<Rightarrow> string" where
  "glyph_color g =
     (if g = ''.'' then ESC # ''[35m''
      else if g = ''-'' then []
      else if g = ''*'' then ESC # ''[1m''
      else if g = ''#'' then ESC # ''[33m''
      else [])"

definition write' :: "string \<Rightarrow> Logger \<Rightarrow> panic + Logger" where
  "write' msg r =
     (if tty r then
        (let parts = SplitN msg (CHR '' '') 6 in
         if length parts \<le> 4 then Inl IndexOutOfRange
         else
           (let color = glyph_color (parts ! 4);
                msg = (if color \<noteq> [] then
                         Join (parts[4 := color @ parts ! 4 @ ESC # ''[0m'']) '' ''
                       else msg)
            in Inr (r\<lparr>wr := snd (Writer_Write (wr r) (TrimSpace msg @ [LF]))\<rparr>)))
      else Inr (r\<lparr>wr := snd (Writer_Write (wr r) (TrimSpace msg @ [LF]))\<rparr>))"

text \<open>
  \<^verbatim>\<open>logf\<close>. The argument \<open>msg\<close> is the text \<^verbatim>\<open>fmt.Sprintf(format, args...)\<close> or
  \<^verbatim>\<open>fmt.Sprint(args...)\<close> returns, and \<open>now\<close> the reading of \<^verbatim>\<open>time.Now()\<close>. A child
  calls its parent with its own field \<^verbatim>\<open>l.app\<close>, not with the argument \<^verbatim>\<open>app\<close>.
\<close>

fun logf :: "node \<Rightarrow> byte \<Rightarrow> logLevel \<Rightarrow> string \<Rightarrow> Time \<Rightarrow> Logger \<Rightarrow> panic + Logger" where
  "logf (Child p a) app' lv msg now r = logf p a lv msg now r"
| "logf Root app' lv msg now r =
     (if \<not> doesAccept Root lv r then Inr r
      else
        (let tm = Format_stamp now;
             dup = (if idups r then
                      last' r = msg \<and> \<not> IsZero (lastt r) \<and>
                      Time_Sub now (lastt r) < Millisecond
                    else False);
             r = (if idups r then r\<lparr>last' := msg, lastt := now\<rparr> else r)
         in if \<not> dup then
              write' (fmt_d (pid r) @ '':'' @ fmt_c app' @ '' '' @ tm @ '' '' @
                      logLevel_String lv @ '' '' @ msg @ [LF]) r
            else Inr r))"

text \<open>The emitting methods; the twelve that build the text with \<^verbatim>\<open>Sprint\<close> call \<^verbatim>\<open>logf\<close> the same way.\<close>

definition Debugf :: "node \<Rightarrow> string \<Rightarrow> Time \<Rightarrow> Logger \<Rightarrow> panic + Logger" where
  "Debugf l msg now r = logf l (app_of l r) logLevelDebug msg now r"

definition Verbosef :: "node \<Rightarrow> string \<Rightarrow> Time \<Rightarrow> Logger \<Rightarrow> panic + Logger" where
  "Verbosef l msg now r = logf l (app_of l r) logLevelVerbose msg now r"

definition Noticef :: "node \<Rightarrow> string \<Rightarrow> Time \<Rightarrow> Logger \<Rightarrow> panic + Logger" where
  "Noticef l msg now r = logf l (app_of l r) logLevelNotice msg now r"

definition Warningf :: "node \<Rightarrow> string \<Rightarrow> Time \<Rightarrow> Logger \<Rightarrow> panic + Logger" where
  "Warningf l msg now r = logf l (app_of l r) logLevelWarning msg now r"

definition Printf :: "node \<Rightarrow> string \<Rightarrow> Time \<Rightarrow> Logger \<Rightarrow> panic + Logger" where
  "Printf l msg now r = logf l (app_of l r) logLevelNotice msg now r"

subsection \<open>The byte-stream entry point\<close>

fun iwrite ::
  "node \<Rightarrow> string \<Rightarrow> byte \<Rightarrow> Time \<Rightarrow> Logger \<Rightarrow> panic + ((int \<times> error option) \<times> Logger)" where
  "iwrite (Child q a) p app' now r = iwrite q p app' now r"
| "iwrite Root p app' now r =
     (case filter' r of
        None \<Rightarrow>
          (let (res, w) = Writer_Write (wr r) p in Inr (res, r\<lparr>wr := w\<rparr>))
      | Some f \<Rightarrow>
          (let (msg, _, lv) = f (TrimSpace p) (tty r) in
           case logf Root app' lv msg now r of
             Inl e \<Rightarrow> Inl e
           | Inr r' \<Rightarrow> Inr ((int (length p), None), r')))"

definition Write ::
  "node \<Rightarrow> string \<Rightarrow> Time \<Rightarrow> Logger \<Rightarrow> panic + ((int \<times> error option) \<times> Logger)" where
  "Write l p now r = iwrite l p (app_of l r) now r"

subsection \<open>The filter for hashicorp/raft lines\<close>

text \<open>
  The loop that drops the spaces after the bracket, and the \<^verbatim>\<open>switch msg[1]\<close>. The named
  results \<^verbatim>\<open>app\<close> and \<^verbatim>\<open>level\<close> start at their zero values, the byte 0 and
  \<^verbatim>\<open>logLevelDebug\<close>. When \<^verbatim>\<open>idx != -1\<close> the text has a first byte, and a second one when
  the first is \<^verbatim>\<open>'['\<close>, so \<^verbatim>\<open>msg[0]\<close> and \<^verbatim>\<open>msg[1]\<close> are in range where they are read.
\<close>

fun skip_spaces :: "string \<Rightarrow> string" where
  "skip_spaces [] = []"
| "skip_spaces (c # cs) = (if c = CHR '' '' then skip_spaces cs else c # cs)"

definition bracket_level :: "byte \<Rightarrow> logLevel" where
  "bracket_level c =
     (if c = CHR ''W'' then logLevelWarning
      else if c = CHR ''E'' then logLevelWarning
      else if c = CHR ''D'' then logLevelDebug
      else if c = CHR ''V'' then logLevelVerbose
      else if c = CHR ''I'' then logLevelNotice
      else logLevelVerbose)"

definition HashicorpRaftFilter :: filter_fn where
  "HashicorpRaftFilter line is_tty =
     (let msg = line;
          idx = IndexByte msg (CHR '' '');
          msg = (if idx \<noteq> - 1 then drop (nat (idx + 1)) msg else msg);
          idx = IndexByte msg (CHR '']'');
          (msg, lv) =
            (if idx \<noteq> - 1 \<and> msg ! 0 = CHR ''['' then
               (skip_spaces (drop (nat (idx + 1)) msg), bracket_level (msg ! 1))
             else (msg, 0));
          msg = (if is_tty then
                   Replace_first
                     (Replace_first
                        (Replace_first msg ''[Leader]''
                           (ESC # ''[32m[Leader]'' @ ESC # ''[0m''))
                        ''[Follower]'' (ESC # ''[33m[Follower]'' @ ESC # ''[0m''))
                     ''[Candidate]'' (ESC # ''[36m[Candidate]'' @ ESC # ''[0m'')
                 else msg)
      in (msg, CHR 0x00, lv))"

section \<open>The logger built from options\<close>

text \<open>
  The repository holds a second \<^verbatim>\<open>package redlog\<close> (the source file whose
  \<^verbatim>\<open>New\<close> takes \<^verbatim>\<open>Options\<close>), with no hierarchy and no duplicate suppression.
  Its names carry the prefix \<open>V2\<close> here. Levels are plain \<^verbatim>\<open>int\<close>s, and the
  fifth, \<^verbatim>\<open>levelFatal\<close>, prints as \<^verbatim>\<open>#\<close>. A \<^verbatim>\<open>nil\<close> writer or
  \<^verbatim>\<open>ioutil.Discard\<close> is \<open>None\<close>. Its \<^verbatim>\<open>HashicorpRaftFilter\<close>,
  \<^verbatim>\<open>RedisLogColorizer\<close> and \<^verbatim>\<open>GoLogger\<close> have the same statements as the ones of
  \<^verbatim>\<open>redlog.go\<close>, with these levels.
\<close>

definition levelDebug :: int where "levelDebug = 0"
definition levelVerbose :: int where "levelVerbose = 1"
definition levelNotice :: int where "levelNotice = 2"
definition levelWarning :: int where "levelWarning = 3"
definition levelFatal :: int where "levelFatal = 4"

definition levelChars :: "byte list" where
  "levelChars = ''.-*##''"

definition levelColors :: "string list" where
  "levelColors = [''35'', [], ''1'', ''33'', ''31'']"

record V2_Options =
  Level :: int
  Filter :: "filter_fn option"
  App :: byte

definition V2_DefaultOptions :: V2_Options where
  "V2_DefaultOptions = \<lparr>Level = 2, Filter = None, App = CHR ''M''\<rparr>"

record V2_Logger =
  v2_app :: byte
  v2_level :: int
  v2_pid :: int
  v2_filter :: "filter_fn option"
  v2_tty :: bool
  v2_wr :: "Writer option"

text \<open>
  \<^verbatim>\<open>New(wr, opts)\<close>; \<open>getpid\<close> is \<^verbatim>\<open>os.Getpid()\<close> and \<open>isatty\<close> says whether
  \<^verbatim>\<open>wr\<close> is a file that is a terminal. A level outside 0 to 3 panics.
\<close>

definition V2_New ::
  "Writer option \<Rightarrow> V2_Options option \<Rightarrow> int \<Rightarrow> bool \<Rightarrow> panic + V2_Logger" where
  "V2_New w opts getpid isatty =
     (let opts = (case opts of None \<Rightarrow> V2_DefaultOptions | Some x \<Rightarrow> x) in
      if Level opts < levelDebug \<or> Level opts > levelWarning then Inl InvalidLevel
      else Inr \<lparr>v2_app = App opts, v2_level = Level opts, v2_pid = getpid,
                v2_filter = Filter opts, v2_tty = (w \<noteq> None \<and> isatty), v2_wr = w\<rparr>)"

text \<open>The loop of \<^verbatim>\<open>write\<close> that drops the last byte while it is a tab, space, CR or LF.\<close>

function V2_strip :: "string \<Rightarrow> string" where
  "V2_strip msg =
     (if msg \<noteq> [] \<and> last msg \<in> {CHR 0x09, CHR '' '', CHR 0x0D, CHR 0x0A}
      then V2_strip (butlast msg) else msg)"
  by pat_completeness auto
termination
  by (relation "measure length") auto

declare V2_strip.simps [simp del]

text \<open>
  The package function \<^verbatim>\<open>write(useFormat, l, app, level, format, args)\<close>; \<open>msg\<close> is the
  text \<^verbatim>\<open>Sprintf\<close> or \<^verbatim>\<open>Sprint\<close> returns and \<open>now\<close> the reading of the clock.
  Indexing \<^verbatim>\<open>levelChars\<close> and \<^verbatim>\<open>levelColors\<close> panics for a level outside 0 to 4.
  \<^verbatim>\<open>Fprintf\<close> makes one \<^verbatim>\<open>Write\<close> on the sink.
\<close>

definition V2_write_line ::
  "V2_Logger \<Rightarrow> byte \<Rightarrow> int \<Rightarrow> string \<Rightarrow> Time \<Rightarrow> panic + V2_Logger" where
  "V2_write_line l a lv msg now =
     (case v2_wr l of
        None \<Rightarrow> Inr l
      | Some w \<Rightarrow>
          (let prefix = fmt_d (v2_pid l) @ [CHR '':'', a, CHR '' ''] @ Format_stamp now @ '' '' in
           if lv < 0 \<or> lv \<ge> 5 then Inl IndexOutOfRange
           else
             (let prefix =
                    (if v2_tty l \<and> levelColors ! nat lv \<noteq> [] then
                       prefix @ (ESC # ''['' @ levelColors ! nat lv @ ''m'') @
                         [levelChars ! nat lv] @ ESC # ''[0m''
                     else prefix @ [levelChars ! nat lv]);
                  msg = V2_strip msg
              in Inr (l\<lparr>v2_wr := Some (snd (Writer_Write w (prefix @ '' '' @ msg @ [LF])))\<rparr>))))"

text \<open>The methods \<^verbatim>\<open>writef\<close> and \<^verbatim>\<open>write\<close>, which differ only in how the text is built.\<close>

definition V2_writef :: "V2_Logger \<Rightarrow> int \<Rightarrow> string \<Rightarrow> Time \<Rightarrow> panic + V2_Logger" where
  "V2_writef l lv msg now =
     (if lv \<ge> v2_level l then V2_write_line l (v2_app l) lv msg now else Inr l)"

definition V2_Printf :: "V2_Logger \<Rightarrow> string \<Rightarrow> Time \<Rightarrow> panic + V2_Logger" where
  "V2_Printf l msg now = V2_writef l levelNotice msg now"

text \<open>\<^verbatim>\<open>func (l *Logger) Write(p []byte) (int, error)\<close>; \<^verbatim>\<open>app\<close> and \<^verbatim>\<open>level\<close> start at zero.\<close>

definition V2_Write ::
  "V2_Logger \<Rightarrow> string \<Rightarrow> Time \<Rightarrow> panic + ((int \<times> error option) \<times> V2_Logger)" where
  "V2_Write l p now =
     (let (line, a, lv) =
            (case v2_filter l of
               None \<Rightarrow> (p, CHR 0x00, 0)
             | Some f \<Rightarrow> f p (v2_tty l))
      in if lv \<ge> v2_level l then
           (case V2_write_line l a lv line now of
              Inl e \<Rightarrow> Inl e
            | Inr l' \<Rightarrow> Inr ((int (length p), None), l'))
         else Inr ((int (length p), None), l))"

section \<open>The relays\<close>

text \<open>
  Both relays read lines from the read end of an \<^verbatim>\<open>io.Pipe\<close> through a
  \<^verbatim>\<open>bufio.Reader\<close>. The pipe is modelled by the bytes written to it that have not been
  read, and by the error every read returns once these are used up and the pipe has been
  closed (\<^verbatim>\<open>io.EOF\<close> after a plain \<^verbatim>\<open>Close\<close>). \<^verbatim>\<open>ReadBytes('\n')\<close> and
  \<^verbatim>\<open>ReadString('\n')\<close> return the bytes up to and including the first line feed; without
  one they return what is left together with the error of a closed pipe, and on an open
  pipe they wait: \<open>None\<close> stands for a read that never returns.
\<close>

record Pipe =
  pending :: string
  closed :: "error option"

definition ReadLine :: "Pipe \<Rightarrow> ((string \<times> error option) \<times> Pipe) option" where
  "ReadLine rd =
     (let m = IndexByte (pending rd) LF in
      if m \<noteq> - 1 then
        Some ((take (nat m + 1) (pending rd), None),
              rd\<lparr>pending := drop (nat m + 1) (pending rd)\<rparr>)
      else
        (case closed rd of
           Some e \<Rightarrow> Some ((pending rd, Some e), rd\<lparr>pending := []\<rparr>)
         | None \<Rightarrow> None))"

text \<open>
  How a relay's goroutine ends: it returns, it waits for ever in a read, or it panics.
  A loop that does none of these, and so runs for ever, has no value.
\<close>

datatype 'a relay = Returned 'a | Blocked 'a | Panicked panic

text \<open>
  The goroutine of \<^verbatim>\<open>GoLogger\<close>. The clock is read once per line that is printed: the
  \<open>k\<close>-th reading is \<open>clock k\<close>.
\<close>

partial_function (option) GoLogger_loop ::
  "node \<Rightarrow> Pipe \<Rightarrow> (nat \<Rightarrow> Time) \<Rightarrow> nat \<Rightarrow> Logger \<Rightarrow> Logger relay option" where
  "GoLogger_loop l rd clock k r =
     (case ReadLine rd of
        None \<Rightarrow> Some (Blocked r)
      | Some ((line, err), rd') \<Rightarrow>
          if err \<noteq> None then GoLogger_loop l rd' clock k r
          else
            (case Printf l (butlast line) (clock k) r of
               Inl e \<Rightarrow> Some (Panicked e)
             | Inr r' \<Rightarrow> GoLogger_loop l rd' clock (Suc k) r'))"

text \<open>
  \<^verbatim>\<open>RedisLogColorizer\<close>: what the goroutine does with one line, and its loop, which
  writes to the standard output \<open>out\<close>. A writer that is not a terminal is returned as it
  is; otherwise the caller gets the write end of a fresh pipe.
\<close>

definition colorize_line :: "string \<Rightarrow> string" where
  "colorize_line line =
     (let parts = Split line (CHR '' '') in
      if length parts > 5 then
        (let color = glyph_color (parts ! 4) in
         if color \<noteq> [] then Join (parts[4 := color @ parts ! 4 @ ESC # ''[0m'']) '' '' else line)
      else line)"

lemma ReadLine_shorter:
  "ReadLine rd = Some ((line, None), rd') \<Longrightarrow> length (pending rd') < length (pending rd)"
  by (cases "pending rd")
     (auto simp: ReadLine_def Let_def split: if_splits option.splits)

function RedisLogColorizer_loop :: "Pipe \<Rightarrow> Writer \<Rightarrow> Writer relay" where
  "RedisLogColorizer_loop rd out =
     (case ReadLine rd of
        None \<Rightarrow> Blocked out
      | Some ((line, err), rd') \<Rightarrow>
          if err \<noteq> None then Returned out
          else RedisLogColorizer_loop rd' (snd (Writer_Write out (colorize_line line))))"
  by pat_completeness auto
termination
  by (relation "measure (\<lambda>(rd, out). length (pending rd))") (auto dest: ReadLine_shorter)

declare RedisLogColorizer_loop.simps [simp del]

definition RedisLogColorizer :: "Writer \<Rightarrow> bool \<Rightarrow> Writer + Pipe" where
  "RedisLogColorizer w isatty =
     (if \<not> isatty then Inl w else Inr \<lparr>pending = [], closed = None\<rparr>)"

section \<open>Vocabulary for the statements\<close>

subsection \<open>Character classes of the line format\<close>

text \<open>The classes \<^verbatim>\<open>\d\<close> and \<^verbatim>\<open>\w\<close> in which the shape of a line is stated.\<close>

definition is_digit :: "char \<Rightarrow> bool" where
  "is_digit c = (c \<in> set ''0123456789'')"

definition is_word :: "char \<Rightarrow> bool" where
  "is_word c =
     (c \<in> set ''abcdefghijklmnopqrstuvwxyzABCDEFGHIJKLMNOPQRSTUVWXYZ0123456789_'')"

subsection \<open>Names for parts of a line\<close>

text \<open>
  The time of day as \<^verbatim>\<open>Format\<close> prints it; the glyph as \<^verbatim>\<open>write\<close> leaves it in
  \<^verbatim>\<open>parts[4]\<close> on a terminal; the tag with which a call of \<^verbatim>\<open>logf\<close> on a node
  arrives at the root; and the bytes \<^verbatim>\<open>write\<close> hands to the sink for an emission.
\<close>

definition clock_text :: "Time \<Rightarrow> string" where
  "clock_text t =
     appendInt (hour t) 2 @ '':'' @ appendInt (minute t) 2 @ '':'' @
     appendInt (second t) 2 @ ''.'' @ appendInt (nanosecond t div 1000000) 3"

definition colored :: "string \<Rightarrow> string" where
  "colored g = (if glyph_color g \<noteq> [] then glyph_color g @ g @ ESC # ''[0m'' else g)"

fun root_app :: "node \<Rightarrow> byte \<Rightarrow> byte" where
  "root_app Root a = a"
| "root_app (Child p t) a = root_app p t"

definition sent :: "Logger \<Rightarrow> byte \<Rightarrow> logLevel \<Rightarrow> string \<Rightarrow> Time \<Rightarrow> string" where
  "sent r a lv msg now =
     TrimRight (fmt_d (pid r) @ '':'' @ fmt_c a @ '' '' @ Format_stamp now @ '' '' @
       (if tty r \<and> a \<noteq> CHR '' '' then colored (logLevel_String lv) else logLevel_String lv) @
       '' '' @ msg @ [LF]) @ [LF]"

subsection \<open>Sample values\<close>

text \<open>
  A reading of the clock, on 1 November at 09:05:07.000, \<open>n\<close> nanoseconds after the
  zero Time; and a sink whose every \<^verbatim>\<open>Write\<close> fails.
\<close>

definition at_ns :: "int \<Rightarrow> Time" where
  "at_ns n = \<lparr>ns = n, day = 1, month = November, hour = 9, minute = 5, second = 7,
     nanosecond = 0\<rparr>"

definition Broken :: Writer where
  "Broken = \<lparr>received = [], respond = (\<lambda>h p. (0, Some (Err ''closed'')))\<rparr>"

text \<open>
  A logger with duplicate suppression on, and the state it is in after a Warning
  \<^verbatim>\<open>x\<close> has been emitted at \<open>at_ns 1000\<close>.
\<close>

definition armed :: Logger where
  "armed = SetLevel (Sub Root (CHR ''A'')) 2 (SetIgnoreDups Root True (New Buffer 100 False))"

definition once :: Logger where
  "once = armed\<lparr>last' := ''x'', lastt := at_ns 1000,
     wr := snd (Writer_Write Buffer (sent armed (CHR ''M'') logLevelWarning ''x'' (at_ns 1000)))\<rparr>"

subsection \<open>The shape of the time stamp\<close>


section \<open>Properties of the library functions\<close>

subsection \<open>Searching and splitting\<close>

lemma IndexByte_absent: "IndexByte s c < 0 \<longleftrightarrow> c \<notin> set s"
  by (induction s) (auto simp: Let_def)

lemma IndexByte_nonneg: "c \<in> set s \<Longrightarrow> 0 \<le> IndexByte s c"
  by (induction s) (auto simp: Let_def)

lemma IndexByte_minus1: "IndexByte s c = - 1 \<longleftrightarrow> c \<notin> set s"
  using IndexByte_absent [of s c] IndexByte_nonneg [of c s] by (induction s) (auto simp: Let_def)

lemma IndexByte_first: "c \<notin> set f \<Longrightarrow> IndexByte (f @ c # rest) c = int (length f)"
  by (induction f) (auto simp: Let_def)

lemma SplitN_field:
  "c \<notin> set f \<Longrightarrow> SplitN (f @ c # rest) c (Suc (Suc n)) = f # SplitN rest c (Suc n)"
  by (simp add: IndexByte_first Let_def)

lemma SplitN_six:
  assumes "c \<notin> set f0" "c \<notin> set f1" "c \<notin> set f2" "c \<notin> set f3" "c \<notin> set f4"
  shows "SplitN (f0 @ c # f1 @ c # f2 @ c # f3 @ c # f4 @ c # rest) c 6 =
    [f0, f1, f2, f3, f4, rest]"
proof -
  have six: "(6::nat) = Suc (Suc (Suc (Suc (Suc (Suc 0)))))" by simp
  show ?thesis
    unfolding six using assms by (simp add: SplitN_field del: SplitN.simps(3))
qed

subsection \<open>Trimming\<close>

lemma space_runes_nonempty: "w \<in> set space_runes \<Longrightarrow> w \<noteq> []"
  by (auto simp: space_runes_def)

lemma space_runes_inner: "w \<in> set space_runes \<Longrightarrow> CHR '' '' \<notin> set (butlast w)"
  by (auto simp: space_runes_def)

lemma space_heads:
  "hd ` set space_runes =
     {CHR 0x09, CHR 0x0A, CHR 0x0B, CHR 0x0C, CHR 0x0D, CHR 0x20, CHR 0xC2, CHR 0xE1,
      CHR 0xE2, CHR 0xE3}"
  by (simp add: space_runes_def)

lemma leading_space_zero_iff:
  "leading_space s = 0 \<longleftrightarrow> (\<forall>w \<in> set space_runes. \<not> prefix w s)"
  unfolding leading_space_def
  by (auto simp: find_None_iff find_Some_iff space_runes_nonempty split: option.splits)

lemma trailing_space_zero_iff:
  "trailing_space s = 0 \<longleftrightarrow> (\<forall>w \<in> set space_runes. \<not> suffix w s)"
  unfolding trailing_space_def
  by (auto simp: find_None_iff find_Some_iff space_runes_nonempty split: option.splits)

lemma leading_space_head:
  assumes "c \<notin> hd ` set space_runes"
  shows "leading_space (c # cs) = 0"
proof -
  have "\<not> prefix w (c # cs)" if "w \<in> set space_runes" for w
  proof
    assume "prefix w (c # cs)"
    with space_runes_nonempty [OF that] have "hd w = c"
      by (cases w) auto
    with that assms show False by auto
  qed
  then show ?thesis by (simp add: leading_space_zero_iff)
qed

lemma trailing_space_last:
  assumes "s \<noteq> []" "last s \<notin> last ` set space_runes"
  shows "trailing_space s = 0"
proof -
  have "\<not> suffix w s" if "w \<in> set space_runes" for w
  proof
    assume "suffix w s"
    with space_runes_nonempty [OF that] have "last w = last s"
      by (auto simp: suffix_def)
    with that assms show False by (metis imageI)
  qed
  then show ?thesis by (simp add: trailing_space_zero_iff)
qed

lemma TrimLeft_none: "leading_space s = 0 \<Longrightarrow> TrimLeft s = s"
  by (simp add: TrimLeft.simps)

lemma TrimRight_none: "trailing_space s = 0 \<Longrightarrow> TrimRight s = s"
  by (simp add: TrimRight.simps)

lemma suffix_snoc:
  "suffix w (s @ [c]) \<longleftrightarrow> w = [] \<or> (last w = c \<and> suffix (butlast w) s)"
  by (cases w rule: rev_cases) auto

lemma trailing_space_ascii:
  "c \<in> {CHR 0x09, CHR 0x0A, CHR 0x0B, CHR 0x0C, CHR 0x0D, CHR 0x20} \<Longrightarrow>
   trailing_space (s @ [c]) = 1"
  by (elim insertE emptyE) (simp_all add: trailing_space_def space_runes_def suffix_snoc)

lemma TrimRight_ascii:
  "c \<in> {CHR 0x09, CHR 0x0A, CHR 0x0B, CHR 0x0C, CHR 0x0D, CHR 0x20} \<Longrightarrow>
   TrimRight (s @ [c]) = TrimRight s"
  by (subst TrimRight.simps) (simp add: trailing_space_ascii)

lemma TrimRight_ascii_run:
  "set ws \<subseteq> {CHR 0x09, CHR 0x0A, CHR 0x0B, CHR 0x0C, CHR 0x0D, CHR 0x20} \<Longrightarrow>
   TrimRight (s @ ws) = TrimRight s"
proof (induction ws rule: rev_induct)
  case Nil
  then show ?case by simp
next
  case (snoc c ws)
  have "TrimRight (s @ ws @ [c]) = TrimRight ((s @ ws) @ [c])" by simp
  also have "\<dots> = TrimRight (s @ ws)" using snoc.prems by (intro TrimRight_ascii) auto
  finally show ?case using snoc by simp
qed

lemma suffix_after_space:
  assumes "w \<in> set space_runes" "b \<noteq> []"
  shows "suffix w (x @ CHR '' '' # b) \<longleftrightarrow> suffix w b"
proof
  assume "suffix w (x @ CHR '' '' # b)"
  then have "suffix w ((x @ [CHR '' '']) @ b)" by simp
  then consider "suffix w b" | w' where "suffix w' (x @ [CHR '' ''])" "w = w' @ b" "w' \<noteq> []"
    unfolding suffix_append by (cases "suffix w b") (auto simp: suffix_def)
  then show "suffix w b"
  proof cases
    case 1
    then show ?thesis .
  next
    case 2
    then have "last w' = CHR '' ''"
      by (auto simp: suffix_def) (metis last_snoc last_appendR snoc_eq_iff_butlast)
    with 2 have "CHR '' '' \<in> set w'" by (metis last_in_set)
    with 2 assms(2) have "CHR '' '' \<in> set (butlast w)" by (simp add: butlast_append)
    with assms(1) show ?thesis using space_runes_inner by blast
  qed
next
  assume "suffix w b"
  then show "suffix w (x @ CHR '' '' # b)" by (auto simp: suffix_def)
qed

lemma trailing_space_after_space:
  "b \<noteq> [] \<Longrightarrow> trailing_space (x @ CHR '' '' # b) = trailing_space b"
  unfolding trailing_space_def
  by (rule arg_cong [where f = "\<lambda>z. case z of None \<Rightarrow> 0 | Some w \<Rightarrow> length w"], rule find_cong)
     (auto simp: suffix_after_space)

subsection \<open>Digits and the formatting verbs\<close>

lemma is_digit_digit: "d < 10 \<Longrightarrow> is_digit (digit d)"
  unfolding digit_def is_digit_def by (intro nth_mem) simp

lemma is_digit_zero: "is_digit (CHR ''0'')"
  by (simp add: is_digit_def)

lemma is_digit_not_space: "is_digit c \<Longrightarrow> c \<noteq> CHR '' ''"
  unfolding is_digit_def by auto

lemma is_digit_no_space_head: "is_digit c \<Longrightarrow> c \<notin> hd ` set space_runes"
  unfolding space_heads is_digit_def by auto

lemma minus_no_space_head: "CHR ''-'' \<notin> hd ` set space_runes"
  unfolding space_heads by simp

lemma decimal_all_digits: "list_all is_digit (decimal n)"
proof (induction n rule: decimal.induct)
  case (1 n)
  show ?case
  proof (cases "n < 10")
    case True
    then show ?thesis by (subst decimal.simps) (simp add: is_digit_digit)
  next
    case False
    then have "list_all is_digit (decimal (n div 10))" using 1 by simp
    then show ?thesis using False by (subst decimal.simps) (simp add: is_digit_digit)
  qed
qed

lemma decimal_nonempty: "decimal n \<noteq> []"
  by (subst decimal.simps) simp

lemma decimal_one: "n < 10 \<Longrightarrow> decimal n = [digit n]"
  by (subst decimal.simps) simp

lemma decimal_more: "10 \<le> n \<Longrightarrow> decimal n = decimal (n div 10) @ [digit (n mod 10)]"
  by (subst decimal.simps) simp

lemma length_decimal_2: "n < 100 \<Longrightarrow> length (decimal n) \<le> 2"
  by (cases "n < 10") (simp_all add: decimal_one decimal_more)

lemma length_decimal_3: "n < 1000 \<Longrightarrow> length (decimal n) \<le> 3"
proof (cases "n < 100")
  case True
  then show ?thesis using length_decimal_2 [of n] by simp
next
  case False
  assume "n < 1000"
  with False have "10 \<le> n" "n div 10 < 100" by auto
  then show ?thesis using length_decimal_2 [of "n div 10"] by (simp add: decimal_more)
qed

lemma appendInt_digits: "list_all is_digit (appendInt x w)"
  using decimal_all_digits [of x] by (auto simp: appendInt_def is_digit_zero list_all_iff)

lemma length_appendInt: "length (decimal x) \<le> w \<Longrightarrow> length (appendInt x w) = w"
  by (simp add: appendInt_def)

lemma appendInt_no_space: "CHR '' '' \<notin> set (appendInt x w)"
  using appendInt_digits [of x w] is_digit_not_space by (auto simp: list_all_iff)

lemma decimal_first: "\<exists>c cs. decimal n = c # cs \<and> is_digit c"
  using decimal_nonempty [of n] decimal_all_digits [of n] by (cases "decimal n") auto

lemma fmt_d_first: "\<exists>c cs. fmt_d i = c # cs \<and> (c = CHR ''-'' \<or> is_digit c)"
proof (cases "i < 0")
  case True
  then show ?thesis by (simp add: fmt_d_def)
next
  case False
  then show ?thesis using decimal_first [of "nat i"] by (auto simp: fmt_d_def)
qed

lemma fmt_d_no_space: "CHR '' '' \<notin> set (fmt_d i)"
  using decimal_all_digits is_digit_not_space by (auto simp: fmt_d_def list_all_iff)

lemma leading_space_fmt_d: "leading_space (fmt_d i @ rest) = 0"
proof -
  obtain c cs where eq: "fmt_d i = c # cs" and c: "c = CHR ''-'' \<or> is_digit c"
    using fmt_d_first [of i] by auto
  have "c \<notin> hd ` set space_runes"
  proof (cases "c = CHR ''-''")
    case True
    then show ?thesis using minus_no_space_head by simp
  next
    case False
    then show ?thesis using c is_digit_no_space_head by simp
  qed
  then show ?thesis using eq by (simp add: leading_space_head)
qed

lemma fmt_c_no_space: "a \<noteq> CHR '' '' \<Longrightarrow> CHR '' '' \<notin> set (fmt_c a)"
proof -
  assume a: "a \<noteq> CHR '' ''"
  let ?n = "of_char a :: nat"
  have h: "char_of (192 + ?n div 64) \<noteq> CHR '' ''"
  proof
    assume "char_of (192 + ?n div 64) = CHR '' ''"
    then have "(of_char (char_of (192 + ?n div 64) :: char) :: nat) = of_char (CHR '' '')" by simp
    then have e: "(192 + ?n div 64) mod 256 = 32" by simp
    have "?n div 64 < 4" using nat_of_char_less_256 [of a] by (simp add: div_less_iff_less_mult)
    then have "(192 + ?n div 64) mod 256 = 192 + ?n div 64" by simp
    with e show False by simp
  qed
  have l: "char_of (128 + ?n mod 64) \<noteq> CHR '' ''"
  proof
    assume "char_of (128 + ?n mod 64) = CHR '' ''"
    then have "(of_char (char_of (128 + ?n mod 64) :: char) :: nat) = of_char (CHR '' '')" by simp
    then have e: "(128 + ?n mod 64) mod 256 = 32" by simp
    have "?n mod 64 < 64" by simp
    then have "(128 + ?n mod 64) mod 256 = 128 + ?n mod 64" by simp
    with e show False by simp
  qed
  show ?thesis using a h l by (simp add: fmt_c_def Let_def)
qed

lemma shortMonth_shape: "length (shortMonth m) = 3 \<and> list_all is_word (shortMonth m)"
  by (cases m) (simp_all add: is_word_def)

lemma shortMonth_no_space: "CHR '' '' \<notin> set (shortMonth m)"
  by (cases m) simp_all

lemma logLevel_String_no_space: "CHR '' '' \<notin> set (logLevel_String lv)"
  by (simp add: logLevel_String_def)

subsection \<open>The raft filter\<close>

lemma skip_spaces_dropWhile: "skip_spaces s = dropWhile (\<lambda>x. x = CHR '' '') s"
  by (induction s) auto

lemma HashicorpRaftFilter_no_space:
  assumes "CHR '' '' \<notin> set line"
  shows "HashicorpRaftFilter line False =
    (if IndexByte line (CHR '']'') \<noteq> - 1 \<and> line ! 0 = CHR ''[''
     then (skip_spaces (drop (nat (IndexByte line (CHR '']'') + 1)) line),
           CHR 0x00, bracket_level (line ! 1))
     else (line, CHR 0x00, 0))"
  using assms by (simp add: HashicorpRaftFilter_def IndexByte_minus1 Let_def)

lemma HashicorpRaftFilter_token:
  assumes "CHR '' '' \<notin> set tok"
  shows "HashicorpRaftFilter (tok @ CHR '' '' # rest) False =
    (if IndexByte rest (CHR '']'') \<noteq> - 1 \<and> rest ! 0 = CHR ''[''
     then (skip_spaces (drop (nat (IndexByte rest (CHR '']'') + 1)) rest),
           CHR 0x00, bracket_level (rest ! 1))
     else (rest, CHR 0x00, 0))"
proof -
  have idx: "IndexByte (tok @ CHR '' '' # rest) (CHR '' '') = int (length tok)"
    using assms by (rule IndexByte_first)
  have dr: "drop (nat (int (length tok) + 1)) (tok @ CHR '' '' # rest) = rest"
    by (simp add: nat_add_distrib)
  show ?thesis
    unfolding HashicorpRaftFilter_def Let_def idx dr by simp
qed

lemma HashicorpRaftFilter_bracket:
  assumes "CHR '' '' \<notin> set tok" "c \<noteq> CHR '']''"
  shows "HashicorpRaftFilter (tok @ '' ['' @ [c] @ '']'' @ rest) False =
    (dropWhile (\<lambda>x. x = CHR '' '') rest, CHR 0x00, bracket_level c)"
proof -
  have "IndexByte (CHR ''['' # c # CHR '']'' # rest) (CHR '']'') = 2"
    using assms(2) by simp
  then show ?thesis
    using HashicorpRaftFilter_token [OF assms(1), of "CHR ''['' # c # CHR '']'' # rest"]
    by (simp add: skip_spaces_dropWhile)
qed

subsection \<open>What \<^verbatim>\<open>write\<close> sends\<close>

lemma Format_stamp_fields:
  "Format_stamp t = appendInt (day t) 2 @ CHR '' '' # shortMonth (month t) @ CHR '' '' # clock_text t"
  by (simp add: Format_stamp_def clock_text_def)

lemma clock_text_no_space: "CHR '' '' \<notin> set (clock_text t)"
  by (simp add: clock_text_def appendInt_no_space)

lemma length_appendInt_ge: "w \<le> length (appendInt x w)"
  by (simp add: appendInt_def)

lemma clock_text_long: "2 \<le> length (clock_text t)"
  using length_appendInt_ge [of 2 "hour t"] by (simp add: clock_text_def)

lemma glyph_color_long: "2 \<le> length g \<Longrightarrow> glyph_color g = []"
  by (auto simp: glyph_color_def)

lemma Join_six: "Join [f0, f1, f2, f3, f4, rest] '' '' =
    f0 @ CHR '' '' # f1 @ CHR '' '' # f2 @ CHR '' '' # f3 @ CHR '' '' # f4 @ CHR '' '' # rest"
  by simp

lemma write'_not_tty:
  "\<not> tty r \<Longrightarrow> write' msg r = Inr (r\<lparr>wr := snd (Writer_Write (wr r) (TrimSpace msg @ [LF]))\<rparr>)"
  by (simp add: write'_def)

lemma write'_fields:
  assumes "tty r"
    and "CHR '' '' \<notin> set f0" "CHR '' '' \<notin> set f1" "CHR '' '' \<notin> set f2"
    and "CHR '' '' \<notin> set f3" "CHR '' '' \<notin> set f4"
  shows "write' (f0 @ CHR '' '' # f1 @ CHR '' '' # f2 @ CHR '' '' # f3 @ CHR '' '' # f4 @ CHR '' '' # rest) r =
    Inr (r\<lparr>wr := snd (Writer_Write (wr r)
      (TrimSpace (f0 @ CHR '' '' # f1 @ CHR '' '' # f2 @ CHR '' '' # f3 @ CHR '' '' # colored f4 @ CHR '' '' # rest) @ [LF]))\<rparr>)"
proof -
  let ?line = "f0 @ CHR '' '' # f1 @ CHR '' '' # f2 @ CHR '' '' # f3 @ CHR '' '' # f4 @ CHR '' '' # rest"
  have parts: "SplitN ?line (CHR '' '') 6 = [f0, f1, f2, f3, f4, rest]"
    using assms(2-) by (rule SplitN_six)
  show ?thesis
    unfolding write'_def parts Let_def using assms(1)
    by (simp add: colored_def)
qed

lemma TrimSpace_line: "TrimSpace (fmt_d p @ rest) = TrimRight (fmt_d p @ rest)"
  by (simp add: TrimSpace_def TrimLeft_none leading_space_fmt_d)

text \<open>The line \<^verbatim>\<open>logf\<close> hands to \<^verbatim>\<open>write\<close>, and what \<^verbatim>\<open>write\<close> passes to the sink for it.\<close>

lemma write'_line:
  "write' (fmt_d p @ '':'' @ fmt_c a @ '' '' @ Format_stamp t @ '' '' @ logLevel_String lv @ '' '' @ rest) r =
   Inr (r\<lparr>wr := snd (Writer_Write (wr r)
     (TrimRight (fmt_d p @ '':'' @ fmt_c a @ '' '' @ Format_stamp t @ '' '' @
        (if tty r \<and> a \<noteq> CHR '' '' then colored (logLevel_String lv) else logLevel_String lv) @
        '' '' @ rest) @ [LF]))\<rparr>)"
proof (cases "tty r")
  case False
  then show ?thesis
    using TrimSpace_line [of p "'':'' @ fmt_c a @ '' '' @ Format_stamp t @ '' '' @ logLevel_String lv @ '' '' @ rest"]
    by (simp add: write'_not_tty)
next
  case True
  show ?thesis
  proof (cases "a = CHR '' ''")
    case False
    have f0: "CHR '' '' \<notin> set (fmt_d p @ '':'' @ fmt_c a)"
      using fmt_d_no_space [of p] fmt_c_no_space [OF False] by simp
    have "write' ((fmt_d p @ '':'' @ fmt_c a) @ CHR '' '' # appendInt (day t) 2 @ CHR '' '' #
            shortMonth (month t) @ CHR '' '' # clock_text t @ CHR '' '' # logLevel_String lv @ CHR '' '' # rest) r =
      Inr (r\<lparr>wr := snd (Writer_Write (wr r)
        (TrimSpace ((fmt_d p @ '':'' @ fmt_c a) @ CHR '' '' # appendInt (day t) 2 @ CHR '' '' #
            shortMonth (month t) @ CHR '' '' # clock_text t @ CHR '' '' # colored (logLevel_String lv) @ CHR '' '' # rest) @ [LF]))\<rparr>)"
      using True f0 appendInt_no_space shortMonth_no_space clock_text_no_space logLevel_String_no_space
      by (rule write'_fields)
    then show ?thesis
      using True False
        TrimSpace_line [of p "'':'' @ fmt_c a @ '' '' @ Format_stamp t @ '' '' @ colored (logLevel_String lv) @ '' '' @ rest"]
      by (simp add: Format_stamp_fields)
  next
    case sp: True
    have f0: "CHR '' '' \<notin> set (fmt_d p @ '':'')"
      using fmt_d_no_space [of p] by simp
    have col: "colored (clock_text t) = clock_text t"
      using clock_text_long [of t] by (simp add: colored_def glyph_color_long)
    have "write' ((fmt_d p @ '':'') @ CHR '' '' # [] @ CHR '' '' # appendInt (day t) 2 @ CHR '' '' #
            shortMonth (month t) @ CHR '' '' # clock_text t @ CHR '' '' # (logLevel_String lv @ CHR '' '' # rest)) r =
      Inr (r\<lparr>wr := snd (Writer_Write (wr r)
        (TrimSpace ((fmt_d p @ '':'') @ CHR '' '' # [] @ CHR '' '' # appendInt (day t) 2 @ CHR '' '' #
            shortMonth (month t) @ CHR '' '' # colored (clock_text t) @ CHR '' '' # (logLevel_String lv @ CHR '' '' # rest)) @ [LF]))\<rparr>)"
      using True f0 _ appendInt_no_space shortMonth_no_space clock_text_no_space
      by (rule write'_fields) simp
    then show ?thesis
      using True sp
        TrimSpace_line [of p "'':'' @ fmt_c a @ '' '' @ Format_stamp t @ '' '' @ logLevel_String lv @ '' '' @ rest"]
      by (simp add: Format_stamp_fields col fmt_c_def)
  qed
qed

subsection \<open>The methods of the Logger\<close>

lemma received_Write: "received (snd (Writer_Write w p)) = received w @ [p]"
  by (simp add: Writer_Write_def)

lemma logf_to_Root: "logf l a lv msg now r = logf Root (root_app l a) lv msg now r"
  by (induction l arbitrary: a) (simp_all only: logf.simps(1) root_app.simps)

lemma write'_line_cons:
  "write' (fmt_d p @ CHR '':'' # fmt_c a @ CHR '' '' # Format_stamp t @ CHR '' '' #
           logLevel_String lv @ CHR '' '' # rest) r =
   Inr (r\<lparr>wr := snd (Writer_Write (wr r)
     (TrimRight (fmt_d p @ CHR '':'' # fmt_c a @ CHR '' '' # Format_stamp t @ CHR '' '' #
        (if tty r \<and> a \<noteq> CHR '' '' then colored (logLevel_String lv) else logLevel_String lv) @
        CHR '' '' # rest) @ [LF]))\<rparr>)"
  using write'_line [of p a t lv rest r] by simp

lemma logf_Root:
  "logf Root a lv msg now r =
     (if lv < level r then Inr r
      else if idups r \<and> last' r = msg \<and> \<not> IsZero (lastt r) \<and>
              Time_Sub now (lastt r) < Millisecond
        then Inr (r\<lparr>last' := msg, lastt := now\<rparr>)
      else if idups r
        then Inr (r\<lparr>last' := msg, lastt := now,
                    wr := snd (Writer_Write (wr r) (sent r a lv msg now))\<rparr>)
      else Inr (r\<lparr>wr := snd (Writer_Write (wr r) (sent r a lv msg now))\<rparr>))"
  by (simp add: Let_def write'_line_cons sent_def)

declare logf.simps [simp del]

lemma logf_any:
  "logf l a lv msg now r =
     (if lv < level r then Inr r
      else if idups r \<and> last' r = msg \<and> \<not> IsZero (lastt r) \<and>
              Time_Sub now (lastt r) < Millisecond
        then Inr (r\<lparr>last' := msg, lastt := now\<rparr>)
      else if idups r
        then Inr (r\<lparr>last' := msg, lastt := now,
                    wr := snd (Writer_Write (wr r) (sent r (root_app l a) lv msg now))\<rparr>)
      else Inr (r\<lparr>wr := snd (Writer_Write (wr r) (sent r (root_app l a) lv msg now))\<rparr>))"
  by (subst logf_to_Root) (rule logf_Root)

lemma SetLevel_any:
  "SetLevel l n r =
     r\<lparr>level := (if n < logLevelDebug then logLevelDebug
                  else if n > logLevelWarning then logLevelWarning else n)\<rparr>"
  by (induction l) (simp_all add: Let_def)

lemma SetIgnoreDups_any: "SetIgnoreDups l t r = r\<lparr>idups := t\<rparr>"
  by (induction l) simp_all

lemma SetFilter_any: "SetFilter l f r = r\<lparr>filter' := f\<rparr>"
  by (induction l) simp_all

lemma doesAccept_any: "doesAccept l lv r = (level r \<le> lv)"
  by (induction l) simp_all

lemma Time_Sub_window: "Time_Sub t u < Millisecond \<longleftrightarrow> ns t - ns u < 1000000"
  by (simp add: Time_Sub_def Millisecond_def minDuration_def maxDuration_def Let_def)

subsection \<open>Evaluating at sample values\<close>

lemma space_lasts:
  "last ` set space_runes =
     {CHR 0x09, CHR 0x0A, CHR 0x0B, CHR 0x0C, CHR 0x0D, CHR 0x20, CHR 0x85, CHR 0xA0, CHR 0x80,
      CHR 0x81, CHR 0x82, CHR 0x83, CHR 0x84, CHR 0x86, CHR 0x87, CHR 0x88, CHR 0x89, CHR 0x8A,
      CHR 0xA8, CHR 0xA9, CHR 0xAF, CHR 0x9F}"
  by (auto simp: space_runes_def)

lemma TrimRight_last:
  "s \<noteq> [] \<Longrightarrow> last s \<notin> last ` set space_runes \<Longrightarrow> TrimRight s = s"
  by (simp add: TrimRight_none trailing_space_last)

lemma TrimRight_LF: "TrimRight (s @ [LF]) = TrimRight s"
  by (rule TrimRight_ascii) (simp add: LF_def)

lemma fmt_d_100: "fmt_d 100 = ''100''"
  by (simp add: fmt_d_def decimal_more decimal_one digit_def)

lemma digit_0: "digit 0 = CHR ''0''"
  by (simp add: digit_def)

lemma appendInt_2_small: "x < 10 \<Longrightarrow> appendInt x 2 = [CHR ''0'', digit x]"
  by (simp add: appendInt_def decimal_one)

lemma appendInt_2_big: "10 \<le> x \<Longrightarrow> x < 100 \<Longrightarrow> appendInt x 2 = [digit (x div 10), digit (x mod 10)]"
  by (simp add: appendInt_def decimal_more decimal_one)

lemma appendInt_2: "x < 100 \<Longrightarrow> appendInt x 2 = [digit (x div 10), digit (x mod 10)]"
  by (cases "x < 10") (simp_all add: appendInt_2_small appendInt_2_big digit_0)

lemma appendInt_3: "x < 1000 \<Longrightarrow> appendInt x 3 = [digit (x div 100), digit (x div 10 mod 10), digit (x mod 10)]"
proof -
  assume x: "x < 1000"
  consider "x < 10" | "10 \<le> x" "x < 100" | "100 \<le> x" by linarith
  then show ?thesis
  proof cases
    case 1
    then show ?thesis by (simp add: appendInt_def decimal_one digit_0 numeral_2_eq_2)
  next
    case 2
    then show ?thesis by (simp add: appendInt_def decimal_more decimal_one digit_0)
  next
    case 3
    then have "10 \<le> x div 10" "x div 10 < 100" using x by auto
    then show ?thesis using 3
      by (simp add: appendInt_def decimal_more [of x] decimal_more [of "x div 10"] decimal_one div_mult2_eq [symmetric])
  qed
qed

lemma Format_stamp_at_ns: "Format_stamp (at_ns n) = ''01 Nov 09:05:07.000''"
  by (simp add: Format_stamp_def at_ns_def appendInt_2 appendInt_3 digit_def)

lemma app_of_simps: "app (New w p t) = CHR ''M''" "pid (New w p t) = p" "tty (New w p t) = t"
  "level (New w p t) = logLevelNotice" "idups (New w p t) = False" "wr (New w p t) = w"
  "filter' (New w p t) = None" "last' (New w p t) = []" "lastt (New w p t) = zero_Time"
  by (simp_all add: New_def)

lemma received_Buffer: "received Buffer = []"
  by (simp add: Buffer_def)

lemma sent_plain_x:
  "sent (New w 100 False) (CHR ''A'') logLevelNotice ''x'' (at_ns n) = ''100:A 01 Nov 09:05:07.000 * x'' @ [LF]"
proof -
  have "TrimRight (''100:A 01 Nov 09:05:07.000 * x'' @ [LF]) = ''100:A 01 Nov 09:05:07.000 * x''"
    unfolding TrimRight_LF by (rule TrimRight_last) (simp_all add: space_lasts)
  then show ?thesis
    by (simp add: sent_def app_of_simps fmt_d_100 Format_stamp_at_ns fmt_c_def logLevel_String_def
        logLevelNotice_def logLevelDebug_def logLevelVerbose_def)
qed

subsection \<open>The bytes of an emission\<close>

lemma sent_body:
  assumes "b \<noteq> []" "trailing_space b = 0"
    and "set ws \<subseteq> {CHR 0x09, CHR 0x0A, CHR 0x0B, CHR 0x0C, CHR 0x0D, CHR 0x20}"
  shows "sent r a lv (b @ ws) now =
    fmt_d (pid r) @ '':'' @ fmt_c a @ '' '' @ Format_stamp now @ '' '' @
      (if tty r \<and> a \<noteq> CHR '' '' then colored (logLevel_String lv) else logLevel_String lv) @
      '' '' @ b @ [LF]"
proof -
  let ?H = "fmt_d (pid r) @ '':'' @ fmt_c a @ '' '' @ Format_stamp now @ '' '' @
      (if tty r \<and> a \<noteq> CHR '' '' then colored (logLevel_String lv) else logLevel_String lv)"
  have ws: "set (ws @ [LF]) \<subseteq> {CHR 0x09, CHR 0x0A, CHR 0x0B, CHR 0x0C, CHR 0x0D, CHR 0x20}"
    using assms(3) by (simp add: LF_def)
  have "TrimRight ((?H @ CHR '' '' # b) @ (ws @ [LF])) = TrimRight (?H @ CHR '' '' # b)"
    using ws by (rule TrimRight_ascii_run)
  also have "\<dots> = ?H @ CHR '' '' # b"
  proof (rule TrimRight_none)
    have "trailing_space (?H @ CHR '' '' # b) = trailing_space b"
      using assms(1) by (rule trailing_space_after_space)
    then show "trailing_space (?H @ CHR '' '' # b) = 0"
      using assms(2) by simp
  qed
  finally have "TrimRight (?H @ '' '' @ (b @ ws) @ [LF]) = ?H @ '' '' @ b"
    by simp
  then show ?thesis
    unfolding sent_def by simp
qed

lemma sent_same:
  assumes "set w1 \<subseteq> {CHR 0x09, CHR 0x0A, CHR 0x0B, CHR 0x0C, CHR 0x0D, CHR 0x20}"
    and "set w2 \<subseteq> {CHR 0x09, CHR 0x0A, CHR 0x0B, CHR 0x0C, CHR 0x0D, CHR 0x20}"
    and "Format_stamp t1 = Format_stamp t2" "pid r1 = pid r2" "tty r1 = tty r2"
  shows "sent r1 a lv (b @ w1) t1 = sent r2 a lv (b @ w2) t2"
proof -
  let ?H = "fmt_d (pid r1) @ '':'' @ fmt_c a @ '' '' @ Format_stamp t1 @ '' '' @
      (if tty r1 \<and> a \<noteq> CHR '' '' then colored (logLevel_String lv) else logLevel_String lv)"
  have t: "TrimRight ((?H @ CHR '' '' # b) @ (w @ [LF])) = TrimRight (?H @ CHR '' '' # b)"
    if "set w \<subseteq> {CHR 0x09, CHR 0x0A, CHR 0x0B, CHR 0x0C, CHR 0x0D, CHR 0x20}" for w
    by (rule TrimRight_ascii_run) (use that in \<open>simp add: LF_def\<close>)
  have "TrimRight (?H @ '' '' @ (b @ w1) @ [LF]) = TrimRight (?H @ '' '' @ (b @ w2) @ [LF])"
    using t [OF assms(1)] t [OF assms(2)] by simp
  then show ?thesis
    unfolding sent_def using assms(3-5) by simp
qed


lemma trailing_space_Nil: "trailing_space [] = 0"
  by (simp add: trailing_space_zero_iff space_runes_nonempty)

lemma last_glyph:
  "last (if tty r \<and> a \<noteq> CHR '' '' then colored (logLevel_String lv) else logLevel_String lv)
     \<in> {CHR ''.'', CHR ''-'', CHR ''*'', CHR ''#'', CHR ''?'', CHR ''m''}"
  by (simp add: colored_def logLevel_String_def glyph_color_def)

lemma glyph_nonempty:
  "(if tty r \<and> a \<noteq> CHR '' '' then colored (logLevel_String lv) else logLevel_String lv) \<noteq> []"
  by (simp add: colored_def logLevel_String_def glyph_color_def)


lemma V2_strip_run:
  assumes "set ws \<subseteq> {CHR 0x09, CHR '' '', CHR 0x0D, CHR 0x0A}"
    and "b = [] \<or> last b \<notin> {CHR 0x09, CHR '' '', CHR 0x0D, CHR 0x0A}"
  shows "V2_strip (b @ ws) = b"
  using assms(1)
proof (induction ws rule: rev_induct)
  case Nil
  then show ?case using assms(2) by (subst V2_strip.simps) auto
next
  case (snoc c ws)
  then have "V2_strip (b @ ws) = b" by simp
  moreover have "V2_strip ((b @ ws) @ [c]) = V2_strip (butlast ((b @ ws) @ [c]))"
    using snoc.prems by (subst V2_strip.simps) simp
  moreover have "butlast ((b @ ws) @ [c]) = b @ ws"
    by (rule butlast_snoc)
  ultimately show ?case by simp
qed

lemma V2_write_line_some:
  assumes "v2_wr l = Some w" "0 \<le> lv" "lv < 5"
  shows "V2_write_line l a lv msg now =
    Inr (l\<lparr>v2_wr := Some (snd (Writer_Write w
      (fmt_d (v2_pid l) @ [CHR '':'', a, CHR '' ''] @ Format_stamp now @ '' '' @
       (if v2_tty l \<and> levelColors ! nat lv \<noteq> [] then
          (ESC # ''['' @ levelColors ! nat lv @ ''m'') @ [levelChars ! nat lv] @ ESC # ''[0m''
        else [levelChars ! nat lv]) @ '' '' @ V2_strip msg @ [LF])))\<rparr>)"
  using assms by (simp add: V2_write_line_def Let_def)

lemma iwrite_to_Root: "iwrite l p a now r = iwrite Root p a now r"
  by (induction l) simp_all

lemma logf_total: "\<exists>r'. logf l a lv msg now r = Inr r'"
  by (simp add: logf_any)

subsection \<open>The logger built from options, the byte stream and the relays\<close>

lemma V2_writef_some:
  assumes "v2_level l \<le> lv" "0 \<le> lv" "lv < 5" "v2_wr l = Some w"
    and "set ws \<subseteq> {CHR 0x09, CHR '' '', CHR 0x0D, CHR 0x0A}"
    and "b = [] \<or> last b \<notin> {CHR 0x09, CHR '' '', CHR 0x0D, CHR 0x0A}"
  shows "V2_writef l lv (b @ ws) now =
    Inr (l\<lparr>v2_wr := Some (snd (Writer_Write w
      (fmt_d (v2_pid l) @ [CHR '':'', v2_app l, CHR '' ''] @ Format_stamp now @ '' '' @
       (if v2_tty l \<and> levelColors ! nat lv \<noteq> [] then
          (ESC # ''['' @ levelColors ! nat lv @ ''m'') @ [levelChars ! nat lv] @ ESC # ''[0m''
        else [levelChars ! nat lv]) @ '' '' @ b @ [LF])))\<rparr>)"
  using assms(1) V2_write_line_some [OF assms(4,2,3), of "v2_app l" "b @ ws" now]
    V2_strip_run [OF assms(5,6)]
  by (simp add: V2_writef_def)

lemma sent_fields:
  "pid r1 = pid r2 \<Longrightarrow> tty r1 = tty r2 \<Longrightarrow> sent r1 a lv msg now = sent r2 a lv msg now"
  by (simp add: sent_def)

lemma Write_filtered:
  assumes "filter' r = Some f" and "f (TrimSpace p) (tty r) = (msg, t, lv)"
    and "level r \<le> lv" and "\<not> idups r"
  shows "Write l p now r =
    Inr ((int (length p), None),
         r\<lparr>wr := snd (Writer_Write (wr r) (sent r (app_of l r) lv msg now))\<rparr>)"
  using assms by (simp add: Write_def iwrite_to_Root [of l] logf_any)

lemma TrimSpace_plain:
  assumes "s \<noteq> []" "hd s \<notin> hd ` set space_runes" "last s \<notin> last ` set space_runes"
  shows "TrimSpace s = s"
proof -
  obtain c cs where s: "s = c # cs" using assms(1) by (cases s) auto
  have "leading_space s = 0" unfolding s using assms(2) s by (intro leading_space_head) simp
  then show ?thesis
    using assms by (simp add: TrimSpace_def TrimLeft_none TrimRight_last)
qed

lemma ReadLine_closed:
  "ReadLine rd = Some (res, rd') \<Longrightarrow> closed rd' = closed rd"
  by (auto simp: ReadLine_def Let_def split: if_splits option.splits)

lemma ReadLine_blocks: "ReadLine rd = None \<Longrightarrow> closed rd = None"
  by (auto simp: ReadLine_def Let_def split: if_splits option.splits)

lemma Printf_total: "\<exists>r'. Printf l msg now r = Inr r'"
  by (simp add: Printf_def logf_any)

lemma GoLogger_loop_ends_open:
  assumes "GoLogger_loop l rd clock k r = Some y"
  shows "closed rd = None"
proof (rule GoLogger_loop.raw_induct
    [where P = "\<lambda>l rd clock k r y. closed rd = None", OF _ assms])
  fix f :: "node \<Rightarrow> Pipe \<Rightarrow> (nat \<Rightarrow> Time) \<Rightarrow> nat \<Rightarrow> Logger \<Rightarrow> Logger relay option"
    and l rd clock k r y
  assume IH: "\<And>l rd clock k r y. f l rd clock k r = Some y \<Longrightarrow> closed rd = None"
  assume step: "(case ReadLine rd of
        None \<Rightarrow> Some (Blocked r)
      | Some ((line, err), rd') \<Rightarrow>
          if err \<noteq> None then f l rd' clock k r
          else
            (case Printf l (butlast line) (clock k) r of
               Inl e \<Rightarrow> Some (Panicked e)
             | Inr r' \<Rightarrow> f l rd' clock (Suc k) r')) = Some y"
  show "closed rd = None"
  proof (cases "ReadLine rd")
    case None
    then show ?thesis by (rule ReadLine_blocks)
  next
    case (Some x)
    obtain line err rd' where x: "x = ((line, err), rd')" by (cases x) auto
    have c: "closed rd' = closed rd" using Some x by (auto dest: ReadLine_closed)
    show ?thesis
    proof (cases "err = None")
      case False
      then have "f l rd' clock k r = Some y" using step Some x by simp
      then show ?thesis using IH c by simp
    next
      case True
      obtain r' where p: "Printf l (butlast line) (clock k) r = Inr r'"
        using Printf_total by blast
      then have "f l rd' clock (Suc k) r' = Some y" using step Some x True by simp
      then show ?thesis using IH c by simp
    qed
  qed
qed

subsection \<open>What trimming removes, in general\<close>

lemma TrimRight_Nil: "TrimRight [] = []"
  by (simp add: TrimRight_none trailing_space_Nil)

lemma trailing_space_suffix:
  assumes "0 < trailing_space s"
  shows "\<exists>w \<in> set space_runes. s = take (length s - trailing_space s) s @ w"
proof -
  from assms obtain w where w: "find (\<lambda>w. suffix w s) space_runes = Some w"
    by (auto simp: trailing_space_def split: option.splits)
  then have m: "w \<in> set space_runes" "suffix w s"
    by (auto simp: find_Some_iff)
  from w have "trailing_space s = length w" by (simp add: trailing_space_def)
  with m show ?thesis by (auto simp: suffix_def)
qed

lemma TrimRight_removes_spaces:
  "\<exists>ws. s = TrimRight s @ concat ws \<and> set ws \<subseteq> set space_runes"
proof (induction s rule: TrimRight.induct)
  case (1 s)
  show ?case
  proof (cases "trailing_space s = 0")
    case True
    then have "s = TrimRight s @ concat []" by (simp add: TrimRight_none)
    then show ?thesis by (intro exI [of _ "[]"]) simp
  next
    case False
    let ?s' = "take (length s - trailing_space s) s"
    from False obtain w where w: "w \<in> set space_runes" "s = ?s' @ w"
      using trailing_space_suffix [of s] by auto
    from 1 [OF False] obtain ws where ws: "?s' = TrimRight ?s' @ concat ws" "set ws \<subseteq> set space_runes"
      by auto
    have t: "TrimRight s = TrimRight ?s'"
      using False by (subst TrimRight.simps) simp
    have "s = TrimRight s @ concat (ws @ [w])"
      unfolding t using w(2) ws(1) by (metis append.assoc append_Nil2 concat.simps concat_append)
    then show ?thesis using w(1) ws(2) by (intro exI [of _ "ws @ [w]"]) simp
  qed
qed

lemma trailing_space_TrimRight: "trailing_space (TrimRight s) = 0"
proof (induction s rule: TrimRight.induct)
  case (1 s)
  show ?case
  proof (cases "trailing_space s = 0")
    case True
    then show ?thesis by (simp add: TrimRight_none)
  next
    case False
    have "TrimRight s = TrimRight (take (length s - trailing_space s) s)"
      using False by (subst TrimRight.simps) simp
    then show ?thesis using 1 [OF False] by simp
  qed
qed

lemma TrimRight_after_space:
  assumes "trailing_space x = 0"
  shows "TrimRight (x @ CHR '' '' # m) =
    (if TrimRight m = [] then x else x @ CHR '' '' # TrimRight m)"
proof (induction m rule: TrimRight.induct)
  case (1 m)
  show ?case
  proof (cases "m = []")
    case True
    have "TrimRight (x @ [CHR '' '']) = TrimRight x"
      by (rule TrimRight_ascii) simp
    then show ?thesis using True assms by (simp add: TrimRight_none TrimRight_Nil)
  next
    case ne: False
    have ts: "trailing_space (x @ CHR '' '' # m) = trailing_space m"
      using ne by (rule trailing_space_after_space)
    show ?thesis
    proof (cases "trailing_space m = 0")
      case True
      then show ?thesis using ts ne by (simp add: TrimRight_none)
    next
      case False
      let ?k = "trailing_space m"
      have le: "?k \<le> length m" by (rule trailing_space_le)
      have tk: "take (length (x @ CHR '' '' # m) - ?k) (x @ CHR '' '' # m) =
          x @ CHR '' '' # take (length m - ?k) m"
        using le by (simp add: Suc_diff_le)
      have "TrimRight (x @ CHR '' '' # m) = TrimRight (x @ CHR '' '' # take (length m - ?k) m)"
        using False ts tk by (subst TrimRight.simps) simp
      moreover have "TrimRight m = TrimRight (take (length m - ?k) m)"
        using False by (subst TrimRight.simps) simp
      ultimately show ?thesis using 1 [OF False] by simp
    qed
  qed
qed

lemma space_runes_tail:
  "w \<in> set space_runes \<Longrightarrow> c \<in> set (tl w) \<Longrightarrow> c \<notin> hd ` set space_runes"
  unfolding space_heads by (auto simp: space_runes_def)

lemma space_runes_no_suffix:
  assumes "w \<in> set space_runes" "w' \<in> set space_runes" "suffix w' w"
  shows "w' = w"
proof (rule ccontr)
  assume ne: "w' \<noteq> w"
  from assms(3) obtain p where p: "w = p @ w'" by (auto simp: suffix_def)
  with ne have "p \<noteq> []" by auto
  then have "set w' \<subseteq> set (tl w)" unfolding p by (cases p) auto
  moreover have "hd w' \<in> set w'" using space_runes_nonempty [OF assms(2)] by simp
  ultimately have "hd w' \<in> set (tl w)" by auto
  then have "hd w' \<notin> hd ` set space_runes" using assms(1) by (intro space_runes_tail)
  then show False using assms(2) by auto
qed

lemma trailing_space_rune:
  assumes "w \<in> set space_runes"
  shows "trailing_space (s @ w) = length w"
proof -
  have "\<exists>x \<in> set space_runes. suffix x (s @ w)" using assms by (auto simp: suffix_def)
  then obtain w' where f: "find (\<lambda>x. suffix x (s @ w)) space_runes = Some w'"
    by (cases "find (\<lambda>x. suffix x (s @ w)) space_runes") (auto simp: find_None_iff)
  then have m: "w' \<in> set space_runes" "suffix w' (s @ w)"
    by (auto simp: find_Some_iff)
  have "suffix w (s @ w)" by (simp add: suffix_def)
  with m(2) have "suffix w' w \<or> suffix w w'" by (rule suffix_same_cases)
  then have "w' = w"
    using space_runes_no_suffix [OF assms m(1)] space_runes_no_suffix [OF m(1) assms] by auto
  with f show ?thesis by (simp add: trailing_space_def)
qed

lemma TrimRight_rune: "w \<in> set space_runes \<Longrightarrow> TrimRight (s @ w) = TrimRight s"
  using trailing_space_rune [of w s] space_runes_nonempty [of w]
  by (subst TrimRight.simps) simp

lemma TrimRight_runes:
  "set us \<subseteq> set space_runes \<Longrightarrow> TrimRight (s @ concat us) = TrimRight s"
proof (induction us rule: rev_induct)
  case Nil
  then show ?case by simp
next
  case (snoc w us)
  have "TrimRight (s @ concat (us @ [w])) = TrimRight ((s @ concat us) @ w)" by simp
  also have "\<dots> = TrimRight (s @ concat us)" using snoc.prems by (intro TrimRight_rune) simp
  finally show ?case using snoc by simp
qed

text \<open>
  The bytes of an emission, for every text: the head of the line up to the glyph, then
  a space and the text without its trailing white space unless nothing of it is left,
  then the line feed.
\<close>

lemma sent_general:
  "sent r a lv msg now =
    fmt_d (pid r) @ '':'' @ fmt_c a @ '' '' @ Format_stamp now @ '' '' @
      (if tty r \<and> a \<noteq> CHR '' '' then colored (logLevel_String lv) else logLevel_String lv) @
      (if TrimRight msg = [] then [] else '' '' @ TrimRight msg) @ [LF]"
proof -
  let ?G = "if tty r \<and> a \<noteq> CHR '' '' then colored (logLevel_String lv) else logLevel_String lv"
  let ?X = "fmt_d (pid r) @ '':'' @ fmt_c a @ '' '' @ Format_stamp now @ '' ''"
  have x: "trailing_space (?X @ ?G) = 0"
  proof (rule trailing_space_last)
    show "?X @ ?G \<noteq> []" using glyph_nonempty [of r a lv] by simp
    have "last (?X @ ?G) = last ?G" using glyph_nonempty [of r a lv] by (rule last_appendR)
    then show "last (?X @ ?G) \<notin> last ` set space_runes"
      using last_glyph [of r a lv] unfolding space_lasts by auto
  qed
  have "TrimRight (((?X @ ?G) @ CHR '' '' # msg) @ [LF]) = TrimRight ((?X @ ?G) @ CHR '' '' # msg)"
    by (rule TrimRight_LF)
  also have "\<dots> = (if TrimRight msg = [] then ?X @ ?G else (?X @ ?G) @ CHR '' '' # TrimRight msg)"
    using x by (rule TrimRight_after_space)
  finally have "TrimRight (?X @ ?G @ '' '' @ msg @ [LF]) =
      ?X @ ?G @ (if TrimRight msg = [] then [] else '' '' @ TrimRight msg)"
    by simp
  then show ?thesis unfolding sent_def by simp
qed

text \<open>The filter on a text that starts with a bracket and holds a closing one.\<close>

lemma HashicorpRaftFilter_body:
  assumes "CHR '']'' \<notin> set pre"
  shows "(if IndexByte (CHR ''['' # pre @ CHR '']'' # post) (CHR '']'') \<noteq> - 1 \<and>
        (CHR ''['' # pre @ CHR '']'' # post) ! 0 = CHR ''[''
     then (skip_spaces (drop (nat (IndexByte (CHR ''['' # pre @ CHR '']'' # post) (CHR '']'') + 1))
              (CHR ''['' # pre @ CHR '']'' # post)),
           CHR 0x00, bracket_level ((CHR ''['' # pre @ CHR '']'' # post) ! 1))
     else (CHR ''['' # pre @ CHR '']'' # post, CHR 0x00, 0)) =
    (dropWhile (\<lambda>x. x = CHR '' '') post, CHR 0x00, bracket_level (hd (pre @ '']'')))"
proof -
  have "CHR '']'' \<notin> set (CHR ''['' # pre)" using assms by simp
  then have i: "IndexByte ((CHR ''['' # pre) @ CHR '']'' # post) (CHR '']'') = int (length (CHR ''['' # pre))"
    by (rule IndexByte_first)
  have n: "(pre @ CHR '']'' # post) ! 0 = hd (pre @ '']'')"
    by (cases pre) simp_all
  show ?thesis
    using i n by (simp add: skip_spaces_dropWhile nat_add_distrib)
qed

section \<open>The claims\<close>

subsection \<open>Claim C1: the format of a line\<close>




subsection \<open>Claim C2: the threshold\<close>

text \<open>
  Claim C2, as it is stated, fails with duplicate suppression on. The threshold of
  \<open>armed\<close> is Notice. A Warning \<^verbatim>\<open>x\<close> is written; the same Warning half a microsecond
  later is at or above the threshold and writes nothing. And the logger built from
  options, which takes its threshold in \<^verbatim>\<open>New\<close>, does not clamp the level 7:
  \<^verbatim>\<open>New\<close> panics.
\<close>

theorem C2_counterexample:
  "level armed = logLevelNotice \<and> level armed \<le> logLevelWarning \<and>
   Warningf Root ''x'' (at_ns 1000) armed = Inr once \<and>
   Warningf Root ''x'' (at_ns 1500) once = Inr (once\<lparr>lastt := at_ns 1500\<rparr>) \<and>
   received (wr (once\<lparr>lastt := at_ns 1500\<rparr>)) = received (wr once) \<and>
   V2_New (Some Buffer) (Some \<lparr>Level = 7, Filter = None, App = CHR ''M''\<rparr>) 100 False =
     Inl InvalidLevel"
proof -
  have a: "level armed = logLevelNotice" "idups armed" "last' armed = []" "wr armed = Buffer"
    "app armed = CHR ''M''"
    by (simp_all add: armed_def SetLevel_any SetIgnoreDups_any app_of_simps logLevelNotice_def
        logLevelDebug_def logLevelWarning_def)
  have t: "\<not> IsZero (at_ns 1000)" "Time_Sub (at_ns 1500) (at_ns 1000) < Millisecond"
    by (simp_all add: IsZero_def at_ns_def Time_Sub_def Millisecond_def minDuration_def
        maxDuration_def)
  have 1: "Warningf Root ''x'' (at_ns 1000) armed = Inr once"
    using a by (simp add: Warningf_def logf_any once_def logLevelNotice_def logLevelWarning_def)
  have o: "level once = logLevelNotice" "idups once" "last' once = ''x''" "lastt once = at_ns 1000"
    using a by (simp_all add: once_def)
  have 2: "Warningf Root ''x'' (at_ns 1500) once = Inr (once\<lparr>lastt := at_ns 1500\<rparr>)"
    using o t by (simp add: Warningf_def logf_any logLevelNotice_def logLevelWarning_def)
  have 3: "V2_New (Some Buffer) (Some \<lparr>Level = 7, Filter = None, App = CHR ''M''\<rparr>) 100 False =
      Inl InvalidLevel"
    by (simp add: V2_New_def levelDebug_def levelWarning_def)
  show ?thesis
    using a 1 2 3 by (simp add: logLevelNotice_def logLevelWarning_def)
qed

text \<open>
  Claim C2, amended. For every integer \<open>n\<close>, \<^verbatim>\<open>SetLevel(n)\<close> on any node sets the
  root's threshold to \<open>n\<close> clamped into Debug to Warning and changes nothing else; it
  has no failing case. Afterwards an emission at a level \<open>s\<close> through any node hands the
  sink one string when \<open>s\<close> is at or above the threshold and the emission is not
  suppressed as a duplicate, and nothing otherwise; below the threshold it also leaves
  the state as it is. The string is the line of the emission, the bytes \<open>sent\<close> that
  \<^verbatim>\<open>write\<close> makes of its text, level, tag and clock reading. The logger built from
  options has no \<^verbatim>\<open>SetLevel\<close>: its threshold is the \<^verbatim>\<open>Level\<close> option, \<^verbatim>\<open>New\<close>
  panics exactly when that is outside Debug to Warning, and an emission at one of its
  five levels writes one string, its line, when the level is at or above the threshold
  and changes nothing otherwise.
\<close>

theorem C2_threshold:
  "SetLevel l n r =
     r\<lparr>level := (if n < logLevelDebug then logLevelDebug
                  else if logLevelWarning < n then logLevelWarning else n)\<rparr> \<and>
   logLevelDebug \<le> level (SetLevel l n r) \<and> level (SetLevel l n r) \<le> logLevelWarning \<and>
   (\<exists>r'. logf l' a s msg now (SetLevel l n r) = Inr r' \<and>
      (if level (SetLevel l n r) \<le> s \<and>
          \<not> (idups r \<and> last' r = msg \<and> \<not> IsZero (lastt r) \<and>
             Time_Sub now (lastt r) < Millisecond)
       then received (wr r') =
              received (wr (SetLevel l n r)) @ [sent r (root_app l' a) s msg now]
       else received (wr r') = received (wr (SetLevel l n r))) \<and>
      (s < level (SetLevel l n r) \<longrightarrow> r' = SetLevel l n r)) \<and>
   ((V2_New w (Some opts) getpid isatty = Inl InvalidLevel) =
      (Level opts < levelDebug \<or> levelWarning < Level opts)) \<and>
   (levelDebug \<le> Level opts \<and> Level opts \<le> levelWarning \<longrightarrow>
      (\<exists>l2. V2_New w (Some opts) getpid isatty = Inr l2 \<and> v2_level l2 = Level opts)) \<and>
   (v2_wr l2 = Some w2 \<and> 0 \<le> s2 \<and> s2 < 5 \<longrightarrow>
      (\<exists>l2'. V2_writef l2 s2 msg now = Inr l2' \<and>
         (if v2_level l2 \<le> s2
          then map_option received (v2_wr l2') = Some (received w2 @
                 [fmt_d (v2_pid l2) @ [CHR '':'', v2_app l2, CHR '' ''] @ Format_stamp now @
                  '' '' @
                  (if v2_tty l2 \<and> levelColors ! nat s2 \<noteq> [] then
                     (ESC # ''['' @ levelColors ! nat s2 @ ''m'') @ [levelChars ! nat s2] @
                     ESC # ''[0m''
                   else [levelChars ! nat s2]) @ '' '' @ V2_strip msg @ [LF]])
          else l2' = l2)))"
proof (intro conjI impI)
  show "SetLevel l n r =
     r\<lparr>level := (if n < logLevelDebug then logLevelDebug
                  else if logLevelWarning < n then logLevelWarning else n)\<rparr>"
    by (simp add: SetLevel_any)
  show "logLevelDebug \<le> level (SetLevel l n r)" "level (SetLevel l n r) \<le> logLevelWarning"
    by (simp_all add: SetLevel_any logLevelDebug_def logLevelWarning_def)
  show "\<exists>r'. logf l' a s msg now (SetLevel l n r) = Inr r' \<and>
      (if level (SetLevel l n r) \<le> s \<and>
          \<not> (idups r \<and> last' r = msg \<and> \<not> IsZero (lastt r) \<and>
             Time_Sub now (lastt r) < Millisecond)
       then received (wr r') =
              received (wr (SetLevel l n r)) @ [sent r (root_app l' a) s msg now]
       else received (wr r') = received (wr (SetLevel l n r))) \<and>
      (s < level (SetLevel l n r) \<longrightarrow> r' = SetLevel l n r)"
    by (auto simp: SetLevel_any logf_any received_Write logLevelDebug_def logLevelWarning_def
        sent_def)
  show "(V2_New w (Some opts) getpid isatty = Inl InvalidLevel) =
      (Level opts < levelDebug \<or> levelWarning < Level opts)"
    by (simp add: V2_New_def)
next
  assume "levelDebug \<le> Level opts \<and> Level opts \<le> levelWarning"
  then show "\<exists>l2. V2_New w (Some opts) getpid isatty = Inr l2 \<and> v2_level l2 = Level opts"
    by (simp add: V2_New_def)
next
  assume h: "v2_wr l2 = Some w2 \<and> 0 \<le> s2 \<and> s2 < 5"
  then have "v2_wr l2 = Some w2" "0 \<le> s2" "s2 < 5" by simp_all
  from V2_write_line_some [OF this, of "v2_app l2" msg now]
  show "\<exists>l2'. V2_writef l2 s2 msg now = Inr l2' \<and>
         (if v2_level l2 \<le> s2
          then map_option received (v2_wr l2') = Some (received w2 @
                 [fmt_d (v2_pid l2) @ [CHR '':'', v2_app l2, CHR '' ''] @ Format_stamp now @
                  '' '' @
                  (if v2_tty l2 \<and> levelColors ! nat s2 \<noteq> [] then
                     (ESC # ''['' @ levelColors ! nat s2 @ ''m'') @ [levelChars ! nat s2] @
                     ESC # ''[0m''
                   else [levelChars ! nat s2]) @ '' '' @ V2_strip msg @ [LF]])
          else l2' = l2)"
    by (simp add: V2_writef_def received_Write)
qed

theorem C2_witness:
  "SetLevel (Sub Root (CHR ''A'')) 7 (New Buffer 100 False) =
     (New Buffer 100 False)\<lparr>level := logLevelWarning\<rparr> \<and>
   logLevelNotice < level (SetLevel (Sub Root (CHR ''A'')) 7 (New Buffer 100 False)) \<and>
   logf Root (CHR ''M'') logLevelNotice ''x'' (at_ns 1000)
     (SetLevel (Sub Root (CHR ''A'')) 7 (New Buffer 100 False)) =
     Inr (SetLevel (Sub Root (CHR ''A'')) 7 (New Buffer 100 False)) \<and>
   levelDebug \<le> Level V2_DefaultOptions \<and> Level V2_DefaultOptions \<le> levelWarning \<and>
   (\<exists>l2. V2_New (Some Buffer) (Some V2_DefaultOptions) 100 False = Inr l2 \<and>
      v2_level l2 = levelNotice) \<and>
   V2_writef \<lparr>v2_app = CHR ''M'', v2_level = levelNotice, v2_pid = 100, v2_filter = None,
       v2_tty = False, v2_wr = Some Buffer\<rparr> levelVerbose ''x'' (at_ns 1000) =
     Inr \<lparr>v2_app = CHR ''M'', v2_level = levelNotice, v2_pid = 100, v2_filter = None,
       v2_tty = False, v2_wr = Some Buffer\<rparr>"
  using C2_threshold [of "Sub Root (CHR ''A'')" 7 "New Buffer 100 False" Root "CHR ''M''"
      logLevelNotice "''x''" "at_ns 1000" "Some Buffer" V2_DefaultOptions 100 False
      "\<lparr>v2_app = CHR ''M'', v2_level = levelNotice, v2_pid = 100, v2_filter = None,
         v2_tty = False, v2_wr = Some Buffer\<rparr>" Buffer levelVerbose]
  by (auto simp: logLevelNotice_def logLevelWarning_def logLevelDebug_def V2_DefaultOptions_def
      levelDebug_def levelWarning_def levelNotice_def levelVerbose_def)

subsection \<open>Claim C3: the tag of a child\<close>

text \<open>
  Claim C3, at a child of a child: \<^verbatim>\<open>New(w).Sub('A').Sub('B').Noticef("x")\<close>. The line
  carries the tag \<^verbatim>\<open>A\<close> of the parent, not the node's own tag \<^verbatim>\<open>B\<close>: \<^verbatim>\<open>logf\<close>
  hands its parent \<^verbatim>\<open>l.app\<close> at every level, so at the root the tag is the one of
  the root's direct child. Through \<^verbatim>\<open>Write\<close> with the raft filter installed the same
  node does print its own tag, because \<^verbatim>\<open>iwrite\<close> passes \<^verbatim>\<open>app\<close> on unchanged.
\<close>

theorem C3_grandchild_tag:
  "map_sum id (received \<circ> wr)
     (Noticef (Sub (Sub Root (CHR ''A'')) (CHR ''B'')) ''x'' (at_ns 1000) (New Buffer 100 False)) =
     Inr [''100:A 01 Nov 09:05:07.000 * x'' @ [LF]] \<and>
   map_sum id (received \<circ> wr \<circ> snd)
     (Write (Sub (Sub Root (CHR ''A'')) (CHR ''B'')) ''ts [I] x'' (at_ns 1000)
        (SetFilter Root (Some HashicorpRaftFilter) (New Buffer 100 False))) =
     Inr [''100:B 01 Nov 09:05:07.000 * x'' @ [LF]]"
proof
  show "map_sum id (received \<circ> wr)
     (Noticef (Sub (Sub Root (CHR ''A'')) (CHR ''B'')) ''x'' (at_ns 1000) (New Buffer 100 False)) =
     Inr [''100:A 01 Nov 09:05:07.000 * x'' @ [LF]]"
    by (simp add: Noticef_def Sub_def logf_any app_of_simps sent_plain_x received_Write
        received_Buffer)
  define r where "r = SetFilter Root (Some HashicorpRaftFilter) (New Buffer 100 False)"
  define l where "l = Sub (Sub Root (CHR ''A'')) (CHR ''B'')"
  have r: "filter' r = Some HashicorpRaftFilter" "tty r = False"
    "level r = logLevelNotice" "idups r = False" "pid r = 100" "wr r = Buffer"
    by (simp_all add: r_def app_of_simps)
  have l: "app_of l r = CHR ''B''" by (simp add: l_def Sub_def)
  have ts: "TrimSpace ''ts [I] x'' = ''ts [I] x''"
    by (rule TrimSpace_plain) (simp_all add: space_heads space_lasts)
  have f: "HashicorpRaftFilter (TrimSpace ''ts [I] x'') (tty r) = (''x'', CHR 0x00, logLevelNotice)"
    unfolding ts r using HashicorpRaftFilter_bracket [of "''ts''" "CHR ''I''" "'' x''"]
    by (simp add: bracket_level_def)
  have "trailing_space ''x'' = 0"
    by (rule trailing_space_last) (simp_all add: space_lasts)
  then have s: "sent r (CHR ''B'') logLevelNotice (''x'' @ []) (at_ns 1000) =
      ''100:B 01 Nov 09:05:07.000 * x'' @ [LF]"
    by (subst sent_body)
      (simp_all add: r fmt_d_100 Format_stamp_at_ns fmt_c_def logLevel_String_def
        logLevelNotice_def logLevelDebug_def logLevelVerbose_def)
  have "Write l ''ts [I] x'' (at_ns 1000) r =
      Inr ((int (length ''ts [I] x''), None),
         r\<lparr>wr := snd (Writer_Write (wr r) (sent r (app_of l r) logLevelNotice ''x'' (at_ns 1000)))\<rparr>)"
    using r(1) f by (rule Write_filtered) (simp_all add: r)
  then have w: "Write l ''ts [I] x'' (at_ns 1000) r =
      Inr ((8, None), r\<lparr>wr := snd (Writer_Write Buffer (''100:B 01 Nov 09:05:07.000 * x'' @ [LF]))\<rparr>)"
    using s r(6) l by simp
  show "map_sum id (received \<circ> wr \<circ> snd)
     (Write (Sub (Sub Root (CHR ''A'')) (CHR ''B'')) ''ts [I] x'' (at_ns 1000)
        (SetFilter Root (Some HashicorpRaftFilter) (New Buffer 100 False))) =
     Inr [''100:B 01 Nov 09:05:07.000 * x'' @ [LF]]"
    unfolding r_def [symmetric] l_def [symmetric] w
    by (simp add: received_Write received_Buffer)
qed

subsection \<open>Claim C4: duplicate suppression\<close>

text \<open>
  Claim C4. With duplicate suppression on, an accepted emission, through any node,
  writes nothing exactly when its text equals the stored last message, an emission has
  been recorded (the stored time is not the zero Time) and less than a millisecond has
  passed since; otherwise it hands the sink one string, the line of this emission (the
  bytes \<open>sent\<close>, which \<^verbatim>\<open>write\<close> makes of its text, level, tag and clock reading).
  Either way the stored message and time become the current ones. When the clock reads a
  millisecond or more after the zero Time, the condition on the stored time follows
  from the other two, and the emission is dropped exactly when the texts are equal and
  less than a millisecond has passed. Hence, from a state in which the first is not
  itself a duplicate, two emissions of one text less than a millisecond apart write one
  line, that of the first, and more than a millisecond apart they write two, the line
  of the first and then the line of the second.
\<close>

theorem C4_duplicate_window:
  assumes "idups r" and "level r \<le> lv"
  shows "(\<exists>r'. logf l a lv msg now r = Inr r' \<and> last' r' = msg \<and> lastt r' = now \<and>
            ((received (wr r') = received (wr r)) =
               (last' r = msg \<and> \<not> IsZero (lastt r) \<and> Time_Sub now (lastt r) < Millisecond)) \<and>
            (received (wr r') \<noteq> received (wr r) \<longrightarrow>
               received (wr r') = received (wr r) @ [sent r (root_app l a) lv msg now])) \<and>
         (Millisecond \<le> ns now \<longrightarrow>
            (\<exists>r'. logf l a lv msg now r = Inr r' \<and>
               ((received (wr r') = received (wr r)) =
                  (last' r = msg \<and> Time_Sub now (lastt r) < Millisecond)))) \<and>
         (\<not> (last' r = msg \<and> \<not> IsZero (lastt r) \<and> Time_Sub t1 (lastt r) < Millisecond) \<and>
          \<not> IsZero t1 \<and> Time_Sub t2 t1 < Millisecond \<longrightarrow>
            (\<exists>r1 r2. logf l a lv msg t1 r = Inr r1 \<and> logf l a lv msg t2 r1 = Inr r2 \<and>
               received (wr r2) = received (wr r) @ [sent r (root_app l a) lv msg t1])) \<and>
         (\<not> (last' r = msg \<and> \<not> IsZero (lastt r) \<and> Time_Sub t1 (lastt r) < Millisecond) \<and>
          Millisecond < Time_Sub t2 t1 \<longrightarrow>
            (\<exists>r1 r2. logf l a lv msg t1 r = Inr r1 \<and> logf l a lv msg t2 r1 = Inr r2 \<and>
               received (wr r2) = received (wr r) @
                 [sent r (root_app l a) lv msg t1, sent r (root_app l a) lv msg t2]))"
proof (intro conjI impI)
  show "\<exists>r'. logf l a lv msg now r = Inr r' \<and> last' r' = msg \<and> lastt r' = now \<and>
            ((received (wr r') = received (wr r)) =
               (last' r = msg \<and> \<not> IsZero (lastt r) \<and> Time_Sub now (lastt r) < Millisecond)) \<and>
            (received (wr r') \<noteq> received (wr r) \<longrightarrow>
               received (wr r') = received (wr r) @ [sent r (root_app l a) lv msg now])"
    using assms by (simp add: logf_any received_Write)
next
  assume "Millisecond \<le> ns now"
  hence "IsZero (lastt r) \<Longrightarrow> \<not> Time_Sub now (lastt r) < Millisecond"
    by (simp add: Time_Sub_def IsZero_def Millisecond_def minDuration_def maxDuration_def
        Let_def)
  thus "\<exists>r'. logf l a lv msg now r = Inr r' \<and>
               ((received (wr r') = received (wr r)) =
                  (last' r = msg \<and> Time_Sub now (lastt r) < Millisecond))"
    using assms by (auto simp: logf_any received_Write)
next
  assume h: "\<not> (last' r = msg \<and> \<not> IsZero (lastt r) \<and> Time_Sub t1 (lastt r) < Millisecond) \<and>
          \<not> IsZero t1 \<and> Time_Sub t2 t1 < Millisecond"
  let ?r1 = "r\<lparr>last' := msg, lastt := t1,
                    wr := snd (Writer_Write (wr r) (sent r (root_app l a) lv msg t1))\<rparr>"
  have 1: "logf l a lv msg t1 r = Inr ?r1"
    using assms h by (auto simp: logf_any)
  have 2: "logf l a lv msg t2 ?r1 = Inr (?r1\<lparr>last' := msg, lastt := t2\<rparr>)"
    using assms h by (simp add: logf_any)
  show "\<exists>r1 r2. logf l a lv msg t1 r = Inr r1 \<and> logf l a lv msg t2 r1 = Inr r2 \<and>
               received (wr r2) = received (wr r) @ [sent r (root_app l a) lv msg t1]"
    using 1 2 by (simp add: received_Write)
next
  assume h: "\<not> (last' r = msg \<and> \<not> IsZero (lastt r) \<and> Time_Sub t1 (lastt r) < Millisecond) \<and>
          Millisecond < Time_Sub t2 t1"
  let ?r1 = "r\<lparr>last' := msg, lastt := t1,
                    wr := snd (Writer_Write (wr r) (sent r (root_app l a) lv msg t1))\<rparr>"
  let ?r2 = "?r1\<lparr>last' := msg, lastt := t2,
                    wr := snd (Writer_Write (wr ?r1) (sent ?r1 (root_app l a) lv msg t2))\<rparr>"
  have s: "sent ?r1 (root_app l a) lv msg t2 = sent r (root_app l a) lv msg t2"
    by (rule sent_fields) simp_all
  have 1: "logf l a lv msg t1 r = Inr ?r1"
    using assms h by (auto simp: logf_any)
  have 2: "logf l a lv msg t2 ?r1 = Inr ?r2"
    using assms h by (simp add: logf_any)
  show "\<exists>r1 r2. logf l a lv msg t1 r = Inr r1 \<and> logf l a lv msg t2 r1 = Inr r2 \<and>
               received (wr r2) = received (wr r) @
                 [sent r (root_app l a) lv msg t1, sent r (root_app l a) lv msg t2]"
    using 1 2 s by (simp add: received_Write)
qed

theorem C4_witness:
  "idups (SetIgnoreDups Root True (New Buffer 100 False)) \<and>
   level (SetIgnoreDups Root True (New Buffer 100 False)) \<le> logLevelNotice \<and>
   \<not> IsZero (at_ns 2000) \<and> Time_Sub (at_ns 2500) (at_ns 2000) < Millisecond \<and>
   Millisecond < Time_Sub (at_ns 5000000) (at_ns 2000) \<and>
   (\<exists>r1 r2.
      logf Root (CHR ''M'') logLevelNotice ''x'' (at_ns 2000)
        (SetIgnoreDups Root True (New Buffer 100 False)) = Inr r1 \<and>
      logf Root (CHR ''M'') logLevelNotice ''x'' (at_ns 2500) r1 = Inr r2 \<and>
      received (wr r2) = [''100:M 01 Nov 09:05:07.000 * x'' @ [LF]]) \<and>
   (\<exists>r1 r2.
      logf Root (CHR ''M'') logLevelNotice ''x'' (at_ns 2000)
        (SetIgnoreDups Root True (New Buffer 100 False)) = Inr r1 \<and>
      logf Root (CHR ''M'') logLevelNotice ''x'' (at_ns 5000000) r1 = Inr r2 \<and>
      received (wr r2) =
        [''100:M 01 Nov 09:05:07.000 * x'' @ [LF], ''100:M 01 Nov 09:05:07.000 * x'' @ [LF]])"
proof -
  let ?r = "SetIgnoreDups Root True (New Buffer 100 False)"
  have h1: "idups ?r" by (simp add: app_of_simps)
  have h2: "level ?r \<le> logLevelNotice" by (simp add: app_of_simps)
  have e: "received (wr ?r) = []" "last' ?r = []"
    by (simp_all add: app_of_simps received_Buffer)
  have t: "\<not> IsZero (at_ns 2000)" "Time_Sub (at_ns 2500) (at_ns 2000) < Millisecond"
    "Millisecond < Time_Sub (at_ns 5000000) (at_ns 2000)"
    by (simp_all add: IsZero_def at_ns_def Time_Sub_def Millisecond_def minDuration_def
        maxDuration_def)
  have "trailing_space ''x'' = 0"
    by (rule trailing_space_last) (simp_all add: space_lasts)
  then have s: "sent ?r (CHR ''M'') logLevelNotice (''x'' @ []) (at_ns n) =
      ''100:M 01 Nov 09:05:07.000 * x'' @ [LF]" for n
    by (subst sent_body)
      (simp_all add: app_of_simps fmt_d_100 Format_stamp_at_ns fmt_c_def logLevel_String_def
        logLevelNotice_def logLevelDebug_def logLevelVerbose_def)
  from C4_duplicate_window [where l = Root and a = "CHR ''M''" and msg = "''x''"
      and now = "at_ns 2000" and ?t1.0 = "at_ns 2000" and ?t2.0 = "at_ns 2500", OF h1 h2]
    C4_duplicate_window [where l = Root and a = "CHR ''M''" and msg = "''x''"
      and now = "at_ns 2000" and ?t1.0 = "at_ns 2000" and ?t2.0 = "at_ns 5000000", OF h1 h2]
  show ?thesis using h1 h2 t e s [of 2000] s [of 2500] s [of 5000000] by simp
qed

subsection \<open>Claim C5: the byte-stream entry point\<close>

text \<open>
  Claim C5, as it is stated, fails with a filter installed: on a sink whose every
  \<^verbatim>\<open>Write\<close> returns 0 and an error, \<^verbatim>\<open>Write\<close> of the eight bytes
  \<^verbatim>\<open>ts [W] x\<close> hands the sink a formatted line and returns 8 and no error.
\<close>

theorem C5_counterexample:
  "map_sum id fst
     (Write Root ''ts [W] x'' (at_ns 1000)
        (SetFilter Root (Some HashicorpRaftFilter) (New Broken 100 False))) =
     Inr (8, None) \<and>
   map_sum id (received \<circ> wr \<circ> snd)
     (Write Root ''ts [W] x'' (at_ns 1000)
        (SetFilter Root (Some HashicorpRaftFilter) (New Broken 100 False))) =
     Inr [''100:M 01 Nov 09:05:07.000 # x'' @ [LF]] \<and>
   fst (Writer_Write Broken (''100:M 01 Nov 09:05:07.000 # x'' @ [LF])) = (0, Some (Err ''closed''))"
proof -
  define r where "r = SetFilter Root (Some HashicorpRaftFilter) (New Broken 100 False)"
  have r: "filter' r = Some HashicorpRaftFilter" "tty r = False" "app r = CHR ''M''"
    "level r = logLevelNotice" "idups r = False" "pid r = 100" "wr r = Broken"
    by (simp_all add: r_def app_of_simps)
  have ts: "TrimSpace ''ts [W] x'' = ''ts [W] x''"
    unfolding TrimSpace_def
    by (subst TrimLeft_none, rule leading_space_head, simp add: space_heads)
       (rule TrimRight_last, simp_all add: space_lasts)
  have f: "HashicorpRaftFilter (TrimSpace ''ts [W] x'') (tty r) = (''x'', CHR 0x00, logLevelWarning)"
    unfolding ts r using HashicorpRaftFilter_bracket [of "''ts''" "CHR ''W''" "'' x''"]
    by (simp add: bracket_level_def)
  have "trailing_space ''x'' = 0"
    by (rule trailing_space_last) (simp_all add: space_lasts)
  then have s: "sent r (app r) logLevelWarning (''x'' @ []) (at_ns 1000) =
      ''100:M 01 Nov 09:05:07.000 # x'' @ [LF]"
    by (subst sent_body)
      (simp_all add: r fmt_d_100 Format_stamp_at_ns fmt_c_def logLevel_String_def
        logLevelNotice_def logLevelDebug_def logLevelVerbose_def logLevelWarning_def)
  have "Write Root ''ts [W] x'' (at_ns 1000) r =
      Inr ((int (length ''ts [W] x''), None),
         r\<lparr>wr := snd (Writer_Write (wr r) (sent r (app_of Root r) logLevelWarning ''x'' (at_ns 1000)))\<rparr>)"
    using r(1) f by (rule Write_filtered) (simp_all add: r logLevelNotice_def logLevelWarning_def)
  then have w: "Write Root ''ts [W] x'' (at_ns 1000) r =
      Inr ((8, None), r\<lparr>wr := snd (Writer_Write Broken (''100:M 01 Nov 09:05:07.000 # x'' @ [LF]))\<rparr>)"
    using s r(7) by simp
  have b: "received Broken = []" by (simp add: Broken_def)
  show ?thesis
    unfolding r_def [symmetric] w
    by (simp add: received_Write b) (simp add: Writer_Write_def Broken_def)
qed

text \<open>
  Claim C5, amended. In \<^verbatim>\<open>redlog.go\<close>, \<^verbatim>\<open>Write(p)\<close> on any node with no filter
  installed hands \<open>p\<close>, unchanged, to the sink in one \<^verbatim>\<open>Write\<close> and returns the
  count and error of that call; with a filter installed it returns \<open>len(p)\<close> and no
  error, whatever the sink returns. In the logger built from options \<^verbatim>\<open>Write\<close>
  returns \<open>len(p)\<close> and no error whenever it returns, and without a filter it does not
  pass \<open>p\<close> through: at threshold Debug it writes \<open>p\<close> as a Debug line with the tag
  byte 0.
\<close>

theorem C5_write_results:
  "(filter' r = None \<longrightarrow>
      Write l p now r =
        Inr (fst (Writer_Write (wr r) p), r\<lparr>wr := snd (Writer_Write (wr r) p)\<rparr>) \<and>
      received (snd (Writer_Write (wr r) p)) = received (wr r) @ [p]) \<and>
   (filter' r = Some f \<longrightarrow>
      (\<exists>r'. Write l p now r = Inr ((int (length p), None), r'))) \<and>
   (\<exists>l'. V2_Write l2 p now = Inr ((int (length p), None), l') \<or>
          V2_Write l2 p now = Inl IndexOutOfRange) \<and>
   (v2_filter l2 = None \<and> v2_wr l2 = Some w \<and> v2_level l2 \<le> 0 \<longrightarrow>
      (\<exists>l'. V2_Write l2 p now = Inr ((int (length p), None), l') \<and>
         map_option received (v2_wr l') = Some (received w @
           [fmt_d (v2_pid l2) @ [CHR '':'', CHR 0x00, CHR '' ''] @ Format_stamp now @ '' '' @
            (if v2_tty l2 then ESC # ''[35m.'' @ ESC # ''[0m'' else ''.'') @ '' '' @
            V2_strip p @ [LF]])))"
proof (intro conjI impI)
  assume "filter' r = None"
  then show "Write l p now r =
        Inr (fst (Writer_Write (wr r) p), r\<lparr>wr := snd (Writer_Write (wr r) p)\<rparr>)"
    by (simp add: Write_def iwrite_to_Root [of l] split: prod.splits)
next
  show "received (snd (Writer_Write (wr r) p)) = received (wr r) @ [p]"
    by (rule received_Write)
next
  assume "filter' r = Some f"
  then show "\<exists>r'. Write l p now r = Inr ((int (length p), None), r')"
    by (simp add: Write_def iwrite_to_Root [of l] logf_any split: prod.splits)
next
  show "\<exists>l'. V2_Write l2 p now = Inr ((int (length p), None), l') \<or>
          V2_Write l2 p now = Inl IndexOutOfRange"
    by (auto simp: V2_Write_def V2_write_line_def Let_def split: prod.splits sum.splits option.splits)
next
  assume h: "v2_filter l2 = None \<and> v2_wr l2 = Some w \<and> v2_level l2 \<le> 0"
  then have "v2_wr l2 = Some w" by simp
  from V2_write_line_some [OF this, of 0 "CHR 0x00" p now] h
  show "\<exists>l'. V2_Write l2 p now = Inr ((int (length p), None), l') \<and>
         map_option received (v2_wr l') = Some (received w @
           [fmt_d (v2_pid l2) @ [CHR '':'', CHR 0x00, CHR '' ''] @ Format_stamp now @ '' '' @
            (if v2_tty l2 then ESC # ''[35m.'' @ ESC # ''[0m'' else ''.'') @ '' '' @
            V2_strip p @ [LF]])"
    by (simp add: V2_Write_def received_Write levelColors_def levelChars_def)
qed

theorem C5_witness:
  "filter' (New Broken 100 False) = None \<and>
   Write (Sub Root (CHR ''A'')) ''raw bytes'' (at_ns 1000) (New Broken 100 False) =
     Inr ((0, Some (Err ''closed'')),
          (New Broken 100 False)\<lparr>wr := Broken\<lparr>received := [''raw bytes'']\<rparr>\<rparr>) \<and>
   filter' (SetFilter Root (Some HashicorpRaftFilter) (New Broken 100 False)) =
     Some HashicorpRaftFilter \<and>
   (\<exists>r'. Write Root ''ts [W] x'' (at_ns 1000)
            (SetFilter Root (Some HashicorpRaftFilter) (New Broken 100 False)) =
          Inr ((8, None), r'))"
proof -
  let ?r = "SetFilter Root (Some HashicorpRaftFilter) (New Broken 100 False)"
  have 1: "filter' (New Broken 100 False) = None" by (simp add: app_of_simps)
  have 2: "filter' ?r = Some HashicorpRaftFilter" by simp
  from C5_write_results [of "New Broken 100 False" "Sub Root (CHR ''A'')" "''raw bytes''" "at_ns 1000"]
    C5_write_results [of ?r Root "''ts [W] x''" "at_ns 1000" HashicorpRaftFilter]
  show ?thesis
    using 1 2 by (simp add: app_of_simps Writer_Write_def Broken_def)
qed

subsection \<open>Claim C6: lines the raft filter does not recognise\<close>

text \<open>
  Claim C6, as it is stated, fails at the line \<^verbatim>\<open>hello world\<close>: the message returned is
  \<^verbatim>\<open>world\<close>, not the raw text, and the level is the zero value Debug, not Verbose.
  And at \<^verbatim>\<open>joined [X] odd\<close>, whose bracketed letter is not a known one, the level is
  Verbose but the message is \<^verbatim>\<open>odd\<close>, not the raw text.
\<close>

theorem C6_counterexample:
  "HashicorpRaftFilter ''hello world'' False = (''world'', CHR 0x00, logLevelDebug) \<and>
   ''world'' \<noteq> ''hello world'' \<and> logLevelDebug \<noteq> logLevelVerbose \<and>
   HashicorpRaftFilter ''joined [X] odd'' False = (''odd'', CHR 0x00, logLevelVerbose) \<and>
   ''odd'' \<noteq> ''joined [X] odd''"
  using HashicorpRaftFilter_token [of "''hello''" "''world''"]
    HashicorpRaftFilter_bracket [of "''joined''" "CHR ''X''" "'' odd''"]
  by (simp add: logLevelDebug_def logLevelVerbose_def bracket_level_def logLevelWarning_def
      logLevelNotice_def)

text \<open>
  Claim C6, amended. With the terminal flag off, the leading token up to the first space
  is always removed; call what follows it (the whole line, when the line has no space)
  the body. When the body does not start with \<^verbatim>\<open>[\<close> or holds no \<^verbatim>\<open>]\<close>, the body is
  the message, unchanged. When the body starts with \<^verbatim>\<open>[\<close> and holds a \<^verbatim>\<open>]\<close>, the
  message is what follows the first \<^verbatim>\<open>]\<close>, without its leading spaces, and the level
  is Verbose when the byte after the \<^verbatim>\<open>[\<close> is none of D, V, I, W, E.
\<close>

theorem C6_unstructured_line:
  "(CHR '' '' \<notin> set tok \<and> (rest = [] \<or> hd rest \<noteq> CHR ''['' \<or> CHR '']'' \<notin> set rest) \<longrightarrow>
      fst (HashicorpRaftFilter (tok @ CHR '' '' # rest) False) = rest) \<and>
   (CHR '' '' \<notin> set line \<and> (line = [] \<or> hd line \<noteq> CHR ''['' \<or> CHR '']'' \<notin> set line) \<longrightarrow>
      fst (HashicorpRaftFilter line False) = line) \<and>
   (CHR '' '' \<notin> set tok2 \<and> CHR '']'' \<notin> set pre \<longrightarrow>
      fst (HashicorpRaftFilter (tok2 @ CHR '' '' # CHR ''['' # pre @ CHR '']'' # post) False) =
        dropWhile (\<lambda>x. x = CHR '' '') post \<and>
      (hd (pre @ '']'') \<notin> {CHR ''D'', CHR ''V'', CHR ''I'', CHR ''W'', CHR ''E''} \<longrightarrow>
         snd (snd (HashicorpRaftFilter (tok2 @ CHR '' '' # CHR ''['' # pre @ CHR '']'' # post) False)) =
           logLevelVerbose)) \<and>
   (CHR '' '' \<notin> set (pre2 @ post2) \<and> CHR '']'' \<notin> set pre2 \<longrightarrow>
      fst (HashicorpRaftFilter (CHR ''['' # pre2 @ CHR '']'' # post2) False) = post2 \<and>
      (hd (pre2 @ '']'') \<notin> {CHR ''D'', CHR ''V'', CHR ''I'', CHR ''W'', CHR ''E''} \<longrightarrow>
         snd (snd (HashicorpRaftFilter (CHR ''['' # pre2 @ CHR '']'' # post2) False)) =
           logLevelVerbose))"
proof (intro conjI impI)
  assume a: "CHR '' '' \<notin> set tok \<and> (rest = [] \<or> hd rest \<noteq> CHR ''['' \<or> CHR '']'' \<notin> set rest)"
  then have tok: "CHR '' '' \<notin> set tok" ..
  from a have n: "\<not> (IndexByte rest (CHR '']'') \<noteq> - 1 \<and> rest ! 0 = CHR ''['')"
    by (cases rest) (auto simp: IndexByte_minus1)
  have "HashicorpRaftFilter (tok @ CHR '' '' # rest) False = (rest, CHR 0x00, 0)"
    unfolding HashicorpRaftFilter_token [OF tok] using n by (rule if_not_P)
  then show "fst (HashicorpRaftFilter (tok @ CHR '' '' # rest) False) = rest"
    by simp
next
  assume a: "CHR '' '' \<notin> set line \<and> (line = [] \<or> hd line \<noteq> CHR ''['' \<or> CHR '']'' \<notin> set line)"
  then have sp: "CHR '' '' \<notin> set line" ..
  from a have n: "\<not> (IndexByte line (CHR '']'') \<noteq> - 1 \<and> line ! 0 = CHR ''['')"
    by (cases line) (auto simp: IndexByte_minus1)
  have "HashicorpRaftFilter line False = (line, CHR 0x00, 0)"
    unfolding HashicorpRaftFilter_no_space [OF sp] using n by (rule if_not_P)
  then show "fst (HashicorpRaftFilter line False) = line"
    by simp
next
  assume a: "CHR '' '' \<notin> set tok2 \<and> CHR '']'' \<notin> set pre"
  then have tok: "CHR '' '' \<notin> set tok2" and pre: "CHR '']'' \<notin> set pre" by simp_all
  have e: "HashicorpRaftFilter (tok2 @ CHR '' '' # CHR ''['' # pre @ CHR '']'' # post) False =
      (dropWhile (\<lambda>x. x = CHR '' '') post, CHR 0x00, bracket_level (hd (pre @ '']'')))"
    unfolding HashicorpRaftFilter_token [OF tok] using pre by (rule HashicorpRaftFilter_body)
  show "fst (HashicorpRaftFilter (tok2 @ CHR '' '' # CHR ''['' # pre @ CHR '']'' # post) False) =
        dropWhile (\<lambda>x. x = CHR '' '') post"
    unfolding e by simp
  assume "hd (pre @ '']'') \<notin> {CHR ''D'', CHR ''V'', CHR ''I'', CHR ''W'', CHR ''E''}"
  then have "bracket_level (hd (pre @ '']'')) = logLevelVerbose"
    by (simp add: bracket_level_def)
  then show "snd (snd (HashicorpRaftFilter (tok2 @ CHR '' '' # CHR ''['' # pre @ CHR '']'' # post) False)) =
           logLevelVerbose"
    unfolding e by simp
next
  assume a: "CHR '' '' \<notin> set (pre2 @ post2) \<and> CHR '']'' \<notin> set pre2"
  then have sp: "CHR '' '' \<notin> set (CHR ''['' # pre2 @ CHR '']'' # post2)"
    and pre: "CHR '']'' \<notin> set pre2" and post: "CHR '' '' \<notin> set post2" by simp_all
  have d: "dropWhile (\<lambda>x. x = CHR '' '') post2 = post2"
    using post by (cases post2) auto
  have "HashicorpRaftFilter (CHR ''['' # pre2 @ CHR '']'' # post2) False =
      (dropWhile (\<lambda>x. x = CHR '' '') post2, CHR 0x00, bracket_level (hd (pre2 @ '']'')))"
    unfolding HashicorpRaftFilter_no_space [OF sp]
    using pre by (rule HashicorpRaftFilter_body)
  then have e: "HashicorpRaftFilter (CHR ''['' # pre2 @ CHR '']'' # post2) False =
      (post2, CHR 0x00, bracket_level (hd (pre2 @ '']'')))"
    unfolding d .
  show "fst (HashicorpRaftFilter (CHR ''['' # pre2 @ CHR '']'' # post2) False) = post2"
    unfolding e by simp
  assume "hd (pre2 @ '']'') \<notin> {CHR ''D'', CHR ''V'', CHR ''I'', CHR ''W'', CHR ''E''}"
  then have "bracket_level (hd (pre2 @ '']'')) = logLevelVerbose"
    by (simp add: bracket_level_def)
  then show "snd (snd (HashicorpRaftFilter (CHR ''['' # pre2 @ CHR '']'' # post2) False)) =
           logLevelVerbose"
    unfolding e by simp
qed

theorem C6_witness:
  "CHR '' '' \<notin> set ''joined'' \<and> hd ''the cluster'' \<noteq> CHR ''['' \<and>
   fst (HashicorpRaftFilter ''joined the cluster'' False) = ''the cluster'' \<and>
   CHR '' '' \<notin> set ''started'' \<and> hd ''started'' \<noteq> CHR ''['' \<and>
   fst (HashicorpRaftFilter ''started'' False) = ''started'' \<and>
   CHR '']'' \<notin> set ''X'' \<and>
   CHR ''X'' \<notin> {CHR ''D'', CHR ''V'', CHR ''I'', CHR ''W'', CHR ''E''} \<and>
   fst (HashicorpRaftFilter ''joined [X]  odd one'' False) = ''odd one'' \<and>
   snd (snd (HashicorpRaftFilter ''joined [X]  odd one'' False)) = logLevelVerbose \<and>
   CHR '' '' \<notin> set (''X'' @ ''odd'') \<and>
   fst (HashicorpRaftFilter ''[X]odd'' False) = ''odd'' \<and>
   snd (snd (HashicorpRaftFilter ''[X]odd'' False)) = logLevelVerbose"
  using C6_unstructured_line [where tok = "''joined''" and rest = "''the cluster''"
      and line = "''started''" and ?tok2.0 = "''joined''" and pre = "''X''"
      and post = "''  odd one''" and ?pre2.0 = "''X''" and ?post2.0 = "''odd''"]
  by simp

subsection \<open>Claim C7: lines the raft filter recognises\<close>

text \<open>
  Claim C7. For a line made of a token without a space, a space, a bracketed letter
  among D, V, I, W, E and a remainder, the filter with the terminal flag off returns the
  remainder without its leading spaces and the level Debug, Verbose, Notice, Warning,
  Warning for the letter; the line
  \<^verbatim>\<open>2024-01-01T00:00:00 [W] leader lost contact\<close> gives Warning and
  \<^verbatim>\<open>leader lost contact\<close>.
\<close>

theorem C7_wellformed_line:
  assumes "CHR '' '' \<notin> set tok"
    and "c \<in> {CHR ''D'', CHR ''V'', CHR ''I'', CHR ''W'', CHR ''E''}"
  shows "HashicorpRaftFilter (tok @ '' ['' @ [c] @ '']'' @ rest) False =
      (dropWhile (\<lambda>x. x = CHR '' '') rest, CHR 0x00,
       if c = CHR ''D'' then logLevelDebug
       else if c = CHR ''V'' then logLevelVerbose
       else if c = CHR ''I'' then logLevelNotice
       else logLevelWarning)
    \<and> HashicorpRaftFilter ''2024-01-01T00:00:00 [W] leader lost contact'' False =
      (''leader lost contact'', CHR 0x00, logLevelWarning)"
proof
  have "c \<noteq> CHR '']''" using assms(2) by auto
  with assms(1) have eq: "HashicorpRaftFilter (tok @ '' ['' @ [c] @ '']'' @ rest) False =
      (dropWhile (\<lambda>x. x = CHR '' '') rest, CHR 0x00, bracket_level c)"
    by (rule HashicorpRaftFilter_bracket)
  have lv: "bracket_level c =
      (if c = CHR ''D'' then logLevelDebug
       else if c = CHR ''V'' then logLevelVerbose
       else if c = CHR ''I'' then logLevelNotice
       else logLevelWarning)"
    using assms(2) by (auto simp: bracket_level_def)
  show "HashicorpRaftFilter (tok @ '' ['' @ [c] @ '']'' @ rest) False =
      (dropWhile (\<lambda>x. x = CHR '' '') rest, CHR 0x00,
       if c = CHR ''D'' then logLevelDebug
       else if c = CHR ''V'' then logLevelVerbose
       else if c = CHR ''I'' then logLevelNotice
       else logLevelWarning)"
    unfolding eq lv ..
  show "HashicorpRaftFilter ''2024-01-01T00:00:00 [W] leader lost contact'' False =
      (''leader lost contact'', CHR 0x00, logLevelWarning)"
    using HashicorpRaftFilter_bracket [of "''2024-01-01T00:00:00''" "CHR ''W''" "'' leader lost contact''"]
    by (simp add: bracket_level_def)
qed

theorem C7_witness:
  "CHR '' '' \<notin> set ''ts'' \<and> CHR ''I'' \<in> {CHR ''D'', CHR ''V'', CHR ''I'', CHR ''W'', CHR ''E''} \<and>
   HashicorpRaftFilter ''ts [I]  joined'' False = (''joined'', CHR 0x00, logLevelNotice)"
  using C7_wellformed_line [of "''ts''" "CHR ''I''" "''  joined''"] by simp

subsection \<open>Claim C8: a read error in a relay\<close>

text \<open>
  Claim C8, at a pipe that has been closed. Every read from it returns the error at
  once. The loop of \<^verbatim>\<open>GoLogger\<close> answers an error with \<^verbatim>\<open>continue\<close> and reads
  again: it never ends, whatever bytes were still unread. The loop of
  \<^verbatim>\<open>RedisLogColorizer\<close> returns at the first error. On an open pipe with nothing to
  read the loop of \<^verbatim>\<open>GoLogger\<close> waits in its read.
\<close>

theorem C8_GoLogger_spins:
  "GoLogger_loop l \<lparr>pending = bs, closed = Some e\<rparr> clock k r = None \<and>
   RedisLogColorizer_loop \<lparr>pending = [], closed = Some e\<rparr> out = Returned out \<and>
   GoLogger_loop l \<lparr>pending = [], closed = None\<rparr> clock k r = Some (Blocked r)"
proof (intro conjI)
  show "GoLogger_loop l \<lparr>pending = bs, closed = Some e\<rparr> clock k r = None"
  proof (cases "GoLogger_loop l \<lparr>pending = bs, closed = Some e\<rparr> clock k r")
    case None
    then show ?thesis .
  next
    case (Some y)
    then have "closed \<lparr>pending = bs, closed = Some e\<rparr> = None"
      by (rule GoLogger_loop_ends_open)
    then show ?thesis by simp
  qed
  show "RedisLogColorizer_loop \<lparr>pending = [], closed = Some e\<rparr> out = Returned out"
    by (subst RedisLogColorizer_loop.simps) (simp add: ReadLine_def)
  show "GoLogger_loop l \<lparr>pending = [], closed = None\<rparr> clock k r = Some (Blocked r)"
    by (subst GoLogger_loop.simps) (simp add: ReadLine_def)
qed

subsection \<open>Claim C9: trailing white space\<close>

text \<open>
  Claim C9, as it is stated, fails in \<^verbatim>\<open>redlog.go\<close> at the text \<^verbatim>\<open>a\<close>, space,
  vertical tab. It does not end in a space, tab, carriage return or line feed, so it has
  no trailing white space in the claim's sense and its space is inner white space; but
  \<^verbatim>\<open>write\<close> trims the line with \<^verbatim>\<open>strings.TrimSpace\<close>, for which the vertical tab is
  white space, and the line ends after the \<^verbatim>\<open>a\<close>. The logger built from options
  strips the four bytes only and keeps the text as it is.
\<close>

theorem C9_counterexample:
  "CHR 0x0B \<notin> {CHR '' '', CHR 0x09, CHR 0x0D, CHR 0x0A} \<and>
   map_sum id (received \<circ> wr)
     (Noticef Root (''a '' @ [CHR 0x0B]) (at_ns 1000) (New Buffer 100 False)) =
     Inr [''100:M 01 Nov 09:05:07.000 * a'' @ [LF]] \<and>
   map_sum id (map_option received \<circ> v2_wr)
     (V2_Printf \<lparr>v2_app = CHR ''M'', v2_level = levelNotice, v2_pid = 100, v2_filter = None,
        v2_tty = False, v2_wr = Some Buffer\<rparr> (''a '' @ [CHR 0x0B]) (at_ns 1000)) =
     Inr (Some [''100:M 01 Nov 09:05:07.000 * a '' @ [CHR 0x0B, LF]])"
proof (intro conjI)
  show "CHR 0x0B \<notin> {CHR '' '', CHR 0x09, CHR 0x0D, CHR 0x0A}" by simp
  have "TrimRight (''a'' @ [CHR '' '', CHR 0x0B]) = TrimRight ''a''"
    by (rule TrimRight_ascii_run) simp
  also have "\<dots> = ''a''"
    by (rule TrimRight_last) (simp_all add: space_lasts)
  finally have t: "TrimRight (''a '' @ [CHR 0x0B]) = ''a''" by simp
  have "sent (New Buffer 100 False) (CHR ''M'') logLevelNotice (''a '' @ [CHR 0x0B]) (at_ns 1000) =
      ''100:M 01 Nov 09:05:07.000 * a'' @ [LF]"
    unfolding sent_general t
    by (simp add: app_of_simps fmt_d_100 Format_stamp_at_ns fmt_c_def logLevel_String_def
        logLevelNotice_def logLevelDebug_def logLevelVerbose_def)
  then show "map_sum id (received \<circ> wr)
     (Noticef Root (''a '' @ [CHR 0x0B]) (at_ns 1000) (New Buffer 100 False)) =
     Inr [''100:M 01 Nov 09:05:07.000 * a'' @ [LF]]"
    by (simp add: Noticef_def logf_any app_of_simps received_Write received_Buffer)
  let ?l = "\<lparr>v2_app = CHR ''M'', v2_level = levelNotice, v2_pid = 100, v2_filter = None,
         v2_tty = False, v2_wr = Some Buffer\<rparr>"
  have "V2_writef ?l levelNotice ((''a '' @ [CHR 0x0B]) @ []) (at_ns 1000) =
    Inr (?l\<lparr>v2_wr := Some (snd (Writer_Write Buffer
      (fmt_d (v2_pid ?l) @ [CHR '':'', v2_app ?l, CHR '' ''] @ Format_stamp (at_ns 1000) @ '' '' @
       (if v2_tty ?l \<and> levelColors ! nat levelNotice \<noteq> [] then
          (ESC # ''['' @ levelColors ! nat levelNotice @ ''m'') @ [levelChars ! nat levelNotice] @ ESC # ''[0m''
        else [levelChars ! nat levelNotice]) @ '' '' @ (''a '' @ [CHR 0x0B]) @ [LF])))\<rparr>)"
    by (rule V2_writef_some) (simp_all add: levelNotice_def)
  then show "map_sum id (map_option received \<circ> v2_wr)
     (V2_Printf ?l (''a '' @ [CHR 0x0B]) (at_ns 1000)) =
     Inr (Some [''100:M 01 Nov 09:05:07.000 * a '' @ [CHR 0x0B, LF]])"
    by (simp add: V2_Printf_def fmt_d_100 Format_stamp_at_ns levelNotice_def levelChars_def
        received_Write received_Buffer eval_nat_numeral)
qed

text \<open>
  Claim C9, amended. In \<^verbatim>\<open>redlog.go\<close>, for every text of an emission that is
  accepted and not suppressed, the string handed to the sink is the head of the line,
  then, unless nothing is left, a space and the text without its trailing white space,
  then one line feed. Trailing white space is here what \<^verbatim>\<open>strings.TrimSpace\<close> takes
  for it: what is removed is a run of white-space runes (the six ASCII ones and the
  Unicode ones), what is left does not end in one and is kept byte for byte with its
  leading and inner white space, and any run of white-space runes appended to a text,
  so any run \<open>ws\<close> of spaces, tabs, carriage returns and line feeds, leaves what is
  written as it is. In the logger built
  from options, where the body \<open>b2\<close> does not end in one of these four bytes, the string
  for \<open>b2\<close> followed by \<open>ws\<close> is the head, a space, \<open>b2\<close> and one line feed.
\<close>

theorem C9_trailing_whitespace:
  assumes "set ws \<subseteq> {CHR '' '', CHR 0x09, CHR 0x0D, CHR 0x0A}"
  shows "(level r \<le> lv \<and>
      \<not> (idups r \<and> last' r = msg \<and> \<not> IsZero (lastt r) \<and>
         Time_Sub now (lastt r) < Millisecond) \<longrightarrow>
      (\<exists>r'. logf l a lv msg now r = Inr r' \<and>
         received (wr r') = received (wr r) @
           [fmt_d (pid r) @ '':'' @ fmt_c (root_app l a) @ '' '' @ Format_stamp now @ '' '' @
            (if tty r \<and> root_app l a \<noteq> CHR '' '' then colored (logLevel_String lv)
             else logLevel_String lv) @
            (if TrimRight msg = [] then [] else '' '' @ TrimRight msg) @ [LF]])) \<and>
    (\<exists>us. msg = TrimRight msg @ concat us \<and> set us \<subseteq> set space_runes) \<and>
    trailing_space (TrimRight msg) = 0 \<and>
    (set vs \<subseteq> set space_runes \<longrightarrow> TrimRight (msg @ concat vs) = TrimRight msg) \<and>
    TrimRight (msg @ ws) = TrimRight msg \<and>
    (v2_level l2 \<le> lv2 \<and> 0 \<le> lv2 \<and> lv2 < 5 \<and> v2_wr l2 = Some w \<and>
     (b2 = [] \<or> last b2 \<notin> {CHR '' '', CHR 0x09, CHR 0x0D, CHR 0x0A}) \<longrightarrow>
      (\<exists>l'. V2_writef l2 lv2 (b2 @ ws) now = Inr l' \<and>
         map_option received (v2_wr l') = Some (received w @
           [fmt_d (v2_pid l2) @ [CHR '':'', v2_app l2, CHR '' ''] @ Format_stamp now @ '' '' @
            (if v2_tty l2 \<and> levelColors ! nat lv2 \<noteq> [] then
               (ESC # ''['' @ levelColors ! nat lv2 @ ''m'') @ [levelChars ! nat lv2] @ ESC # ''[0m''
             else [levelChars ! nat lv2]) @ '' '' @ b2 @ [LF]])))"
proof (intro conjI impI)
  assume h: "level r \<le> lv \<and>
      \<not> (idups r \<and> last' r = msg \<and> \<not> IsZero (lastt r) \<and>
         Time_Sub now (lastt r) < Millisecond)"
  have s: "sent r (root_app l a) lv msg now =
      fmt_d (pid r) @ '':'' @ fmt_c (root_app l a) @ '' '' @ Format_stamp now @ '' '' @
         (if tty r \<and> root_app l a \<noteq> CHR '' '' then colored (logLevel_String lv)
          else logLevel_String lv) @
         (if TrimRight msg = [] then [] else '' '' @ TrimRight msg) @ [LF]"
    by (rule sent_general)
  show "\<exists>r'. logf l a lv msg now r = Inr r' \<and>
         received (wr r') = received (wr r) @
           [fmt_d (pid r) @ '':'' @ fmt_c (root_app l a) @ '' '' @ Format_stamp now @ '' '' @
            (if tty r \<and> root_app l a \<noteq> CHR '' '' then colored (logLevel_String lv)
             else logLevel_String lv) @
            (if TrimRight msg = [] then [] else '' '' @ TrimRight msg) @ [LF]]"
    unfolding s [symmetric] using h by (auto simp: logf_any received_Write)
next
  show "\<exists>us. msg = TrimRight msg @ concat us \<and> set us \<subseteq> set space_runes"
    by (rule TrimRight_removes_spaces)
next
  show "trailing_space (TrimRight msg) = 0"
    by (rule trailing_space_TrimRight)
next
  assume "set vs \<subseteq> set space_runes"
  then show "TrimRight (msg @ concat vs) = TrimRight msg"
    by (rule TrimRight_runes)
next
  have "set ws \<subseteq> {CHR 0x09, CHR 0x0A, CHR 0x0B, CHR 0x0C, CHR 0x0D, CHR 0x20}"
    using assms by auto
  then show "TrimRight (msg @ ws) = TrimRight msg"
    by (rule TrimRight_ascii_run)
next
  assume h: "v2_level l2 \<le> lv2 \<and> 0 \<le> lv2 \<and> lv2 < 5 \<and> v2_wr l2 = Some w \<and>
     (b2 = [] \<or> last b2 \<notin> {CHR '' '', CHR 0x09, CHR 0x0D, CHR 0x0A})"
  have ws4: "set ws \<subseteq> {CHR 0x09, CHR '' '', CHR 0x0D, CHR 0x0A}"
    using assms by auto
  have b4: "b2 = [] \<or> last b2 \<notin> {CHR 0x09, CHR '' '', CHR 0x0D, CHR 0x0A}"
    using h by auto
  from h have "v2_level l2 \<le> lv2" "0 \<le> lv2" "lv2 < 5" "v2_wr l2 = Some w" by auto
  from V2_writef_some [OF this ws4 b4, of now]
  show "\<exists>l'. V2_writef l2 lv2 (b2 @ ws) now = Inr l' \<and>
         map_option received (v2_wr l') = Some (received w @
           [fmt_d (v2_pid l2) @ [CHR '':'', v2_app l2, CHR '' ''] @ Format_stamp now @ '' '' @
            (if v2_tty l2 \<and> levelColors ! nat lv2 \<noteq> [] then
               (ESC # ''['' @ levelColors ! nat lv2 @ ''m'') @ [levelChars ! nat lv2] @ ESC # ''[0m''
             else [levelChars ! nat lv2]) @ '' '' @ b2 @ [LF]])"
    by (simp add: received_Write)
qed

theorem C9_witness:
  "set [CHR '' '', CHR 0x09, CHR 0x0D, CHR 0x0A] \<subseteq> {CHR '' '', CHR 0x09, CHR 0x0D, CHR 0x0A} \<and>
   level (New Buffer 100 False) \<le> logLevelNotice \<and> \<not> idups (New Buffer 100 False) \<and>
   TrimRight (''  a  b'' @ [CHR '' '', CHR 0x09, CHR 0x0D, CHR 0x0A]) = ''  a  b'' \<and>
   (\<exists>r'. logf Root (CHR ''M'') logLevelNotice (''  a  b'' @ [CHR '' '', CHR 0x09, CHR 0x0D, CHR 0x0A])
            (at_ns 1000) (New Buffer 100 False) = Inr r' \<and>
      received (wr r') = [''100:M 01 Nov 09:05:07.000 *   a  b'' @ [LF]]) \<and>
   (\<exists>l'. V2_writef \<lparr>v2_app = CHR ''M'', v2_level = levelNotice, v2_pid = 100, v2_filter = None,
             v2_tty = False, v2_wr = Some Buffer\<rparr> levelNotice
            (''  a  b'' @ [CHR '' '', CHR 0x09, CHR 0x0D, CHR 0x0A]) (at_ns 1000) = Inr l' \<and>
      map_option received (v2_wr l') = Some [''100:M 01 Nov 09:05:07.000 *   a  b'' @ [LF]])"
proof -
  let ?ws = "[CHR '' '', CHR 0x09, CHR 0x0D, CHR 0x0A]"
  let ?l2 = "\<lparr>v2_app = CHR ''M'', v2_level = levelNotice, v2_pid = 100, v2_filter = None,
             v2_tty = False, v2_wr = Some Buffer\<rparr>"
  have h0: "set ?ws \<subseteq> {CHR '' '', CHR 0x09, CHR 0x0D, CHR 0x0A}" by simp
  have h1: "level (New Buffer 100 False) \<le> logLevelNotice" "\<not> idups (New Buffer 100 False)"
    by (simp_all add: app_of_simps)
  have "TrimRight (''  a  b'' @ ?ws) = TrimRight ''  a  b''"
    by (rule TrimRight_ascii_run) simp
  also have "\<dots> = ''  a  b''"
    by (rule TrimRight_last) (simp_all add: space_lasts)
  finally have h2: "TrimRight (''  a  b'' @ ?ws) = ''  a  b''" .
  have h3: "v2_level ?l2 \<le> levelNotice \<and> 0 \<le> levelNotice \<and> levelNotice < 5 \<and>
      v2_wr ?l2 = Some Buffer \<and>
      (''  a  b'' = [] \<or> last ''  a  b'' \<notin> {CHR '' '', CHR 0x09, CHR 0x0D, CHR 0x0A})"
    by (simp add: levelNotice_def)
  from C9_trailing_whitespace [where r = "New Buffer 100 False" and lv = logLevelNotice
      and msg = "''  a  b'' @ ?ws" and now = "at_ns 1000" and l = Root and a = "CHR ''M''"
      and ?l2.0 = ?l2 and ?lv2.0 = levelNotice and w = Buffer and ?b2.0 = "''  a  b''", OF h0]
  show ?thesis
    using h1 h2 h3
    by (simp add: app_of_simps fmt_d_100 Format_stamp_at_ns fmt_c_def logLevel_String_def
        logLevelNotice_def logLevelDebug_def logLevelVerbose_def received_Buffer levelNotice_def
        levelChars_def levelColors_def eval_nat_numeral LF_def)
qed

subsection \<open>Claim C10: what the duplicate test compares\<close>

text \<open>
  Claim C10. With duplicate suppression on, let two accepted emissions follow each
  other through one node and at one level. Whenever their texts differ, in whatever
  way and at whatever clock readings, the second is not suppressed: it hands the sink
  its line, the head, then a space and its text without trailing white space unless
  nothing of it is left, then a line feed; the test compares the texts as they are and
  the trimming is done on the line. So when the texts are one body \<open>b\<close> followed by
  two different runs of white-space runes, the clock readings print the same stamp and
  the first is not itself suppressed as a duplicate of what came before it, the sink is
  handed two lines, and they are byte for byte the same line.
\<close>

theorem C10_raw_text_compared:
  assumes "idups r" and "level r \<le> lv"
  shows "(m1 \<noteq> m2 \<longrightarrow>
      (\<exists>r1 r2. logf l a lv m1 t1 r = Inr r1 \<and> logf l a lv m2 t2 r1 = Inr r2 \<and>
         received (wr r1) = received (wr r) @
           (if last' r = m1 \<and> \<not> IsZero (lastt r) \<and> Time_Sub t1 (lastt r) < Millisecond then []
            else [fmt_d (pid r) @ '':'' @ fmt_c (root_app l a) @ '' '' @ Format_stamp t1 @ '' '' @
                  (if tty r \<and> root_app l a \<noteq> CHR '' '' then colored (logLevel_String lv)
                   else logLevel_String lv) @
                  (if TrimRight m1 = [] then [] else '' '' @ TrimRight m1) @ [LF]]) \<and>
         received (wr r2) = received (wr r1) @
           [fmt_d (pid r) @ '':'' @ fmt_c (root_app l a) @ '' '' @ Format_stamp t2 @ '' '' @
            (if tty r \<and> root_app l a \<noteq> CHR '' '' then colored (logLevel_String lv)
             else logLevel_String lv) @
            (if TrimRight m2 = [] then [] else '' '' @ TrimRight m2) @ [LF]])) \<and>
    (concat u1 \<noteq> concat u2 \<and> set u1 \<subseteq> set space_runes \<and> set u2 \<subseteq> set space_runes \<and>
     Format_stamp t1 = Format_stamp t2 \<and>
     \<not> (last' r = b @ concat u1 \<and> \<not> IsZero (lastt r) \<and>
        Time_Sub t1 (lastt r) < Millisecond) \<longrightarrow>
      (\<exists>r1 r2. logf l a lv (b @ concat u1) t1 r = Inr r1 \<and>
         logf l a lv (b @ concat u2) t2 r1 = Inr r2 \<and>
         received (wr r2) = received (wr r) @
           [fmt_d (pid r) @ '':'' @ fmt_c (root_app l a) @ '' '' @ Format_stamp t1 @ '' '' @
            (if tty r \<and> root_app l a \<noteq> CHR '' '' then colored (logLevel_String lv)
             else logLevel_String lv) @
            (if TrimRight b = [] then [] else '' '' @ TrimRight b) @ [LF],
            fmt_d (pid r) @ '':'' @ fmt_c (root_app l a) @ '' '' @ Format_stamp t1 @ '' '' @
            (if tty r \<and> root_app l a \<noteq> CHR '' '' then colored (logLevel_String lv)
             else logLevel_String lv) @
            (if TrimRight b = [] then [] else '' '' @ TrimRight b) @ [LF]]))"
proof (intro conjI impI)
  assume ne: "m1 \<noteq> m2"
  let ?d = "last' r = m1 \<and> \<not> IsZero (lastt r) \<and> Time_Sub t1 (lastt r) < Millisecond"
  have s1: "sent r (root_app l a) lv m1 t1 =
      fmt_d (pid r) @ '':'' @ fmt_c (root_app l a) @ '' '' @ Format_stamp t1 @ '' '' @
        (if tty r \<and> root_app l a \<noteq> CHR '' '' then colored (logLevel_String lv)
         else logLevel_String lv) @
        (if TrimRight m1 = [] then [] else '' '' @ TrimRight m1) @ [LF]"
    by (rule sent_general)
  have s2: "sent r (root_app l a) lv m2 t2 =
      fmt_d (pid r) @ '':'' @ fmt_c (root_app l a) @ '' '' @ Format_stamp t2 @ '' '' @
        (if tty r \<and> root_app l a \<noteq> CHR '' '' then colored (logLevel_String lv)
         else logLevel_String lv) @
        (if TrimRight m2 = [] then [] else '' '' @ TrimRight m2) @ [LF]"
    by (rule sent_general)
  have same: "sent r' (root_app l a) lv m2 t2 = sent r (root_app l a) lv m2 t2"
    if "pid r' = pid r" "tty r' = tty r" for r'
    using that by (rule sent_fields)
  show "\<exists>r1 r2. logf l a lv m1 t1 r = Inr r1 \<and> logf l a lv m2 t2 r1 = Inr r2 \<and>
         received (wr r1) = received (wr r) @
           (if last' r = m1 \<and> \<not> IsZero (lastt r) \<and> Time_Sub t1 (lastt r) < Millisecond then []
            else [fmt_d (pid r) @ '':'' @ fmt_c (root_app l a) @ '' '' @ Format_stamp t1 @ '' '' @
                  (if tty r \<and> root_app l a \<noteq> CHR '' '' then colored (logLevel_String lv)
                   else logLevel_String lv) @
                  (if TrimRight m1 = [] then [] else '' '' @ TrimRight m1) @ [LF]]) \<and>
         received (wr r2) = received (wr r1) @
           [fmt_d (pid r) @ '':'' @ fmt_c (root_app l a) @ '' '' @ Format_stamp t2 @ '' '' @
            (if tty r \<and> root_app l a \<noteq> CHR '' '' then colored (logLevel_String lv)
             else logLevel_String lv) @
            (if TrimRight m2 = [] then [] else '' '' @ TrimRight m2) @ [LF]]"
    unfolding s1 [symmetric] s2 [symmetric]
  proof (cases ?d)
    case True
    let ?r1 = "r\<lparr>last' := m1, lastt := t1\<rparr>"
    have 1: "logf l a lv m1 t1 r = Inr ?r1"
      using assms True by (simp add: logf_any)
    have 2: "logf l a lv m2 t2 ?r1 =
        Inr (?r1\<lparr>last' := m2, lastt := t2,
               wr := snd (Writer_Write (wr ?r1) (sent r (root_app l a) lv m2 t2))\<rparr>)"
      using assms ne same [of ?r1] by (simp add: logf_any)
    show "\<exists>r1 r2. logf l a lv m1 t1 r = Inr r1 \<and> logf l a lv m2 t2 r1 = Inr r2 \<and>
         received (wr r1) = received (wr r) @
           (if last' r = m1 \<and> \<not> IsZero (lastt r) \<and> Time_Sub t1 (lastt r) < Millisecond then []
            else [sent r (root_app l a) lv m1 t1]) \<and>
         received (wr r2) = received (wr r1) @ [sent r (root_app l a) lv m2 t2]"
      unfolding 1 using 2 True by (simp add: received_Write)
  next
    case False
    let ?r1 = "r\<lparr>last' := m1, lastt := t1,
        wr := snd (Writer_Write (wr r) (sent r (root_app l a) lv m1 t1))\<rparr>"
    have 1: "logf l a lv m1 t1 r = Inr ?r1"
      using assms False by (auto simp: logf_any)
    have 2: "logf l a lv m2 t2 ?r1 =
        Inr (?r1\<lparr>last' := m2, lastt := t2,
               wr := snd (Writer_Write (wr ?r1) (sent r (root_app l a) lv m2 t2))\<rparr>)"
      using assms ne same [of ?r1] by (simp add: logf_any)
    show "\<exists>r1 r2. logf l a lv m1 t1 r = Inr r1 \<and> logf l a lv m2 t2 r1 = Inr r2 \<and>
         received (wr r1) = received (wr r) @
           (if last' r = m1 \<and> \<not> IsZero (lastt r) \<and> Time_Sub t1 (lastt r) < Millisecond then []
            else [sent r (root_app l a) lv m1 t1]) \<and>
         received (wr r2) = received (wr r1) @ [sent r (root_app l a) lv m2 t2]"
      unfolding 1 using 2 False by (auto simp: received_Write)
  qed
next
  assume h: "concat u1 \<noteq> concat u2 \<and> set u1 \<subseteq> set space_runes \<and> set u2 \<subseteq> set space_runes \<and>
     Format_stamp t1 = Format_stamp t2 \<and>
     \<not> (last' r = b @ concat u1 \<and> \<not> IsZero (lastt r) \<and>
        Time_Sub t1 (lastt r) < Millisecond)"
  define w1 where "w1 = concat u1"
  define w2 where "w2 = concat u2"
  from h have ne: "b @ w1 \<noteq> b @ w2" by (simp add: w1_def w2_def)
  have tr: "TrimRight (b @ w1) = TrimRight b" "TrimRight (b @ w2) = TrimRight b"
    using h by (simp_all add: TrimRight_runes w1_def w2_def)
  from h have h: "Format_stamp t1 = Format_stamp t2 \<and>
     \<not> (last' r = b @ w1 \<and> \<not> IsZero (lastt r) \<and> Time_Sub t1 (lastt r) < Millisecond)"
    by (simp add: w1_def)
  let ?L = "fmt_d (pid r) @ '':'' @ fmt_c (root_app l a) @ '' '' @ Format_stamp t1 @ '' '' @
            (if tty r \<and> root_app l a \<noteq> CHR '' '' then colored (logLevel_String lv)
             else logLevel_String lv) @
            (if TrimRight b = [] then [] else '' '' @ TrimRight b) @ [LF]"
  have s1: "sent r (root_app l a) lv (b @ w1) t1 = ?L"
    unfolding sent_general tr ..
  have s2: "sent r' (root_app l a) lv (b @ w2) t2 = ?L"
    if "pid r' = pid r" "tty r' = tty r" for r'
    unfolding sent_general tr using h that by simp
  let ?r1 = "r\<lparr>last' := b @ w1, lastt := t1, wr := snd (Writer_Write (wr r) ?L)\<rparr>"
  have 1: "logf l a lv (b @ w1) t1 r = Inr ?r1"
    using assms h s1 by (auto simp: logf_any)
  have 2: "logf l a lv (b @ w2) t2 ?r1 =
      Inr (?r1\<lparr>last' := b @ w2, lastt := t2, wr := snd (Writer_Write (wr ?r1) ?L)\<rparr>)"
    using assms ne s2 [of ?r1] by (simp add: logf_any)
  show "\<exists>r1 r2. logf l a lv (b @ concat u1) t1 r = Inr r1 \<and>
         logf l a lv (b @ concat u2) t2 r1 = Inr r2 \<and>
         received (wr r2) = received (wr r) @ [?L, ?L]"
    unfolding w1_def [symmetric] w2_def [symmetric] 1 using 2 by (simp add: received_Write)
qed

theorem C10_witness:
  "idups (SetIgnoreDups Root True (New Buffer 100 False)) \<and>
   level (SetIgnoreDups Root True (New Buffer 100 False)) \<le> logLevelNotice \<and>
   set [[CHR '' ''], [CHR 0xC2, CHR 0xA0]] \<subseteq> set space_runes \<and>
   set [[CHR 0x09]] \<subseteq> set space_runes \<and>
   (\<exists>r1 r2.
      logf Root (CHR ''M'') logLevelNotice (''up '' @ [CHR 0xC2, CHR 0xA0]) (at_ns 1000)
        (SetIgnoreDups Root True (New Buffer 100 False)) = Inr r1 \<and>
      logf Root (CHR ''M'') logLevelNotice (''up'' @ [CHR 0x09]) (at_ns 1001) r1 = Inr r2 \<and>
      received (wr r2) =
        [''100:M 01 Nov 09:05:07.000 * up'' @ [LF], ''100:M 01 Nov 09:05:07.000 * up'' @ [LF]])"
proof -
  let ?r = "SetIgnoreDups Root True (New Buffer 100 False)"
  have h1: "idups ?r" by (simp add: app_of_simps)
  have h2: "level ?r \<le> logLevelNotice" by (simp add: app_of_simps)
  have h3: "concat [[CHR '' ''], [CHR 0xC2, CHR 0xA0]] \<noteq> concat [[CHR 0x09]]" by simp
  have h4: "set [[CHR '' ''], [CHR 0xC2, CHR 0xA0]] \<subseteq> set space_runes"
    "set [[CHR 0x09]] \<subseteq> set space_runes"
    by (simp_all add: space_runes_def)
  have h5: "Format_stamp (at_ns 1000) = Format_stamp (at_ns 1001)"
    by (simp add: Format_stamp_at_ns)
  have e: "received (wr ?r) = []" "last' ?r = []" "pid ?r = 100" "tty ?r = False"
    by (simp_all add: app_of_simps received_Buffer)
  have t: "TrimRight ''up'' = ''up''"
    by (rule TrimRight_last) (simp_all add: space_lasts)
  from C10_raw_text_compared [where ?u1.0 = "[[CHR '' ''], [CHR 0xC2, CHR 0xA0]]"
      and ?u2.0 = "[[CHR 0x09]]"
      and ?t1.0 = "at_ns 1000" and ?t2.0 = "at_ns 1001" and b = "''up''" and l = Root
      and a = "CHR ''M''", OF h1 h2]
  show ?thesis
    using h1 h2 h3 h4 h5 e t
    by (simp add: fmt_d_100 Format_stamp_at_ns fmt_c_def logLevel_String_def
        logLevelNotice_def logLevelDebug_def logLevelVerbose_def)
qed

end
